theory Spec2Isabelle
  imports Complex_Main "HOL-Library.Multiset" "HOL-Library.Sublist" "HOL-Library.Log_Nat"
begin

section \<open>JavaScript numbers\<close>

text \<open>
  The scraper (\<^verbatim>\<open>backend/src/services/scraper.ts\<close>) and the outlier detector of the
  front end (\<^verbatim>\<open>App.tsx\<close>) compute on JavaScript numbers: IEEE 754 doubles. A finite double
  is a rational that rounding to double leaves as it is; a number is a finite double,
  \<^verbatim>\<open>Infinity\<close>, \<^verbatim>\<open>-Infinity\<close> or \<^verbatim>\<open>NaN\<close>. The two zeros are not told apart: no
  operation of the program does.

  \<open>ilog2 x\<close> is the exponent \<open>e\<close> with \<open>2^e \<le> x < 2^(e+1)\<close>, for \<open>x > 0\<close>. Rounding is to
  nearest, ties to even: the magnitude is scaled by the unit in the last place of its binade
  (53 significant bits; the exponent is not below -1022, so below \<open>2^-1022\<close> the unit stays
  \<open>2^-1074\<close>), rounded to an integer and scaled back; a result of \<open>2^1024\<close> or more is an
  overflow (\<open>None\<close>).
\<close>

definition ilog2 :: "rat \<Rightarrow> int" where
  "ilog2 x = (if 1 \<le> x then bitlen \<lfloor>x\<rfloor> - 1 else - bitlen (\<lceil>1 / x\<rceil> - 1))"

definition round_half_even :: "rat \<Rightarrow> int" where
  "round_half_even y =
     (let f = \<lfloor>y\<rfloor>; r = y - of_int f
      in if r < 1 / 2 then f else if 1 / 2 < r then f + 1 else if even f then f else f + 1)"

definition round_double :: "rat \<Rightarrow> rat option" where
  "round_double x =
     (if x = 0 then Some 0
      else (let e = max (ilog2 \<bar>x\<bar>) (- 1022);
                ulp = 2 powi (e - 52);
                y = of_int (round_half_even (\<bar>x\<bar> / ulp)) * ulp
            in if 2 powi 1024 \<le> y then None else Some (sgn x * y)))"

typedef double = "{x :: rat. round_double x = Some x}"
  morphisms double_value Double
  by (rule exI [of _ 0]) (simp add: round_double_def)

text \<open>A \<^verbatim>\<open>number\<close>.\<close>

datatype number = Finite double | PosInfinity | NegInfinity | NaN

text \<open>The number nearest to a rational: what a numeric literal denotes, and what an
  arithmetic operation returns for its exact result.\<close>

definition num :: "rat \<Rightarrow> number" where
  "num x = (case round_double x of
              Some y \<Rightarrow> Finite (Double y)
            | None \<Rightarrow> if 0 < x then PosInfinity else NegInfinity)"

text \<open>
  The numbers in ascending order, for sorting and for least and greatest elements:
  \<^verbatim>\<open>-Infinity\<close>, the finite ones by value, \<^verbatim>\<open>Infinity\<close>; \<^verbatim>\<open>NaN\<close>, which the language does not
  compare, is put last. The comparisons of the language, \<open>js_lt\<close> and \<open>js_gt\<close>, are false
  when an operand is \<^verbatim>\<open>NaN\<close>.
\<close>

fun num_rank :: "number \<Rightarrow> nat" where
  "num_rank NegInfinity = 0"
| "num_rank (Finite d) = 1"
| "num_rank PosInfinity = 2"
| "num_rank NaN = 3"

fun num_val :: "number \<Rightarrow> rat" where
  "num_val (Finite d) = double_value d"
| "num_val PosInfinity = 0"
| "num_val NegInfinity = 0"
| "num_val NaN = 0"

instantiation number :: linorder
begin

definition less_eq_number :: "number \<Rightarrow> number \<Rightarrow> bool" where
  "less_eq_number a b =
     (num_rank a < num_rank b \<or> (num_rank a = num_rank b \<and> num_val a \<le> num_val b))"

definition less_number :: "number \<Rightarrow> number \<Rightarrow> bool" where
  "less_number a b =
     (num_rank a < num_rank b \<or> (num_rank a = num_rank b \<and> num_val a < num_val b))"

instance
proof
  fix x y z :: number
  show "(x < y) = (x \<le> y \<and> \<not> y \<le> x)"
    by (auto simp: less_eq_number_def less_number_def)
  show "x \<le> x" by (simp add: less_eq_number_def)
  show "x \<le> y \<Longrightarrow> y \<le> z \<Longrightarrow> x \<le> z"
    by (auto simp: less_eq_number_def)
  show "x \<le> y \<Longrightarrow> y \<le> x \<Longrightarrow> x = y"
    by (cases x; cases y) (auto simp: less_eq_number_def double_value_inject)
  show "x \<le> y \<or> y \<le> x"
    by (auto simp: less_eq_number_def)
qed

end

definition js_lt :: "number \<Rightarrow> number \<Rightarrow> bool" where
  "js_lt a b = (a \<noteq> NaN \<and> b \<noteq> NaN \<and> a < b)"

definition js_gt :: "number \<Rightarrow> number \<Rightarrow> bool" where
  "js_gt a b = js_lt b a"

definition js_le :: "number \<Rightarrow> number \<Rightarrow> bool" where
  "js_le a b = (a \<noteq> NaN \<and> b \<noteq> NaN \<and> a \<le> b)"

text \<open>The arithmetic of the language: the exact result, rounded; and the rules for the
  infinite operands and \<^verbatim>\<open>NaN\<close>. A division by zero takes the zero for positive.\<close>

fun num_neg :: "number \<Rightarrow> number" where
  "num_neg (Finite a) = num (- double_value a)"
| "num_neg PosInfinity = NegInfinity"
| "num_neg NegInfinity = PosInfinity"
| "num_neg NaN = NaN"

fun num_add :: "number \<Rightarrow> number \<Rightarrow> number" where
  "num_add (Finite a) (Finite b) = num (double_value a + double_value b)"
| "num_add NaN b = NaN"
| "num_add a NaN = NaN"
| "num_add PosInfinity NegInfinity = NaN"
| "num_add NegInfinity PosInfinity = NaN"
| "num_add PosInfinity b = PosInfinity"
| "num_add a PosInfinity = PosInfinity"
| "num_add NegInfinity b = NegInfinity"
| "num_add a NegInfinity = NegInfinity"

definition num_sub :: "number \<Rightarrow> number \<Rightarrow> number" where
  "num_sub a b = num_add a (num_neg b)"

text \<open>The sign of a number: 1, -1 or 0.\<close>

fun num_sgn :: "number \<Rightarrow> int" where
  "num_sgn (Finite a) = (if 0 < double_value a then 1 else if double_value a < 0 then - 1 else 0)"
| "num_sgn PosInfinity = 1"
| "num_sgn NegInfinity = - 1"
| "num_sgn NaN = 0"

fun num_mul :: "number \<Rightarrow> number \<Rightarrow> number" where
  "num_mul (Finite a) (Finite b) = num (double_value a * double_value b)"
| "num_mul NaN b = NaN"
| "num_mul a NaN = NaN"
| "num_mul a b =
     (if num_sgn a * num_sgn b = 0 then NaN
      else if 0 < num_sgn a * num_sgn b then PosInfinity else NegInfinity)"

fun num_div :: "number \<Rightarrow> number \<Rightarrow> number" where
  "num_div NaN b = NaN"
| "num_div a NaN = NaN"
| "num_div (Finite a) (Finite b) =
     (if double_value b = 0
      then (if double_value a = 0 then NaN
            else if 0 < double_value a then PosInfinity else NegInfinity)
      else num (double_value a / double_value b))"
| "num_div (Finite a) b = num 0"
| "num_div a (Finite b) =
     (if 0 \<le> num_sgn a * num_sgn (Finite b) then a else num_neg a)"
| "num_div a b = NaN"

text \<open>\<^verbatim>\<open>Math.round\<close>: the nearest integer, a half going up. \<^verbatim>\<open>Math.min\<close> and \<^verbatim>\<open>Math.max\<close>
  of the elements of an array: \<^verbatim>\<open>NaN\<close> when one of them is, \<^verbatim>\<open>Infinity\<close> and \<^verbatim>\<open>-Infinity\<close> for
  the empty array.\<close>

fun Math_round :: "number \<Rightarrow> number" where
  "Math_round (Finite a) = num (of_int \<lfloor>double_value a + 1 / 2\<rfloor>)"
| "Math_round a = a"

definition Math_min :: "number list \<Rightarrow> number" where
  "Math_min ps = (if NaN \<in> set ps then NaN else fold min ps PosInfinity)"

definition Math_max :: "number list \<Rightarrow> number" where
  "Math_max ps = (if NaN \<in> set ps then NaN else fold max ps NegInfinity)"

section \<open>Strings and the scraped data\<close>

text \<open>Strings are the UTF-8 bytes of their text. A \<^verbatim>\<open>number | null\<close> is a \<^typ>\<open>number option\<close>.\<close>

type_synonym url = string
type_synonym html = string

datatype attr_value = Scalar string | Multi "string list"

text \<open>\<^verbatim>\<open>ListingItem\<close> (scraper.ts, lines 111-115) and \<^verbatim>\<open>ScrapedItem\<close> (types.ts), which has
  the three fields of a listing and the four of its detail page.\<close>

record ListingItem =
  link :: string
  title :: string
  image :: string

record ScrapedItem = ListingItem +
  price :: "number option"
  priceText :: string
  description :: string
  attributes :: "string \<rightharpoonup> attr_value"

record ScrapeResult =
  items :: "ScrapedItem list"
  minPrice :: "number option"
  maxPrice :: "number option"
  avgPrice :: "number option"
  totalItems :: nat

section \<open>parsePrice\<close>

definition is_digit :: "char \<Rightarrow> bool" where
  "is_digit c = (48 \<le> (of_char c :: nat) \<and> (of_char c :: nat) \<le> 57)"

definition digit_val :: "char \<Rightarrow> nat" where
  "digit_val c = of_char c - 48"

definition digits_val :: "string \<Rightarrow> nat" where
  "digits_val ds = fold (\<lambda>c acc. 10 * acc + digit_val c) ds 0"

text \<open>
  \<^verbatim>\<open>parseFloat\<close> of the language, on the strings \<^verbatim>\<open>parsePrice\<close> passes to it: they
  hold digits and dots only, so white space, a sign, an exponent and \<^verbatim>\<open>Infinity\<close> never
  occur. It reads the longest prefix that is a decimal literal (digits, then optionally a
  dot and digits; or a dot and at least one digit) and ignores the rest; the result is the
  number nearest to the value of that literal, and \<^verbatim>\<open>NaN\<close> when there is no such prefix.
\<close>

definition parseFloat :: "string \<Rightarrow> number" where
  "parseFloat s =
     (let ip = takeWhile is_digit s;
          rest = dropWhile is_digit s;
          fp = (case rest of [] \<Rightarrow> [] | c # r \<Rightarrow> if c = CHR ''.'' then takeWhile is_digit r else [])
      in if ip = [] \<and> fp = [] then NaN
         else num (of_nat (digits_val ip) + of_nat (digits_val fp) / 10 ^ length fp))"

text \<open>\<^verbatim>\<open>priceText.replace(/[^\d.]/g, '')\<close>\<close>

definition cleaned :: "string \<Rightarrow> string" where
  "cleaned txt = filter (\<lambda>c. is_digit c \<or> c = CHR ''.'') txt"

text \<open>scraper.ts, lines 41-47. \<^verbatim>\<open>!priceText\<close> holds of the empty string only.\<close>

definition parsePrice :: "string \<Rightarrow> number option" where
  "parsePrice txt =
     (if txt = [] then None
      else (let parsed = parseFloat (cleaned txt) in
            if parsed = NaN then None else Some parsed))"

text \<open>
  The words of the specification for \<^verbatim>\<open>parsePrice\<close>: the string with every character that
  is not a digit or a dot deleted; and a decimal number, as a string: digits, then
  optionally a dot and digits, or a dot and at least one digit. \<open>literal_prefix\<close> is the
  reading of \<^verbatim>\<open>parseFloat\<close>: some leading part of the string is a decimal number.
\<close>

definition spec_stripped :: "string \<Rightarrow> string" where
  "spec_stripped s = filter (\<lambda>c. c \<in> set ''0123456789.'') s"

definition decimal_literal :: "string \<Rightarrow> bool" where
  "decimal_literal p =
     (\<exists>ds fs. list_all is_digit ds \<and> list_all is_digit fs \<and>
        ((ds \<noteq> [] \<and> (p = ds \<or> p = ds @ CHR ''.'' # fs)) \<or> (fs \<noteq> [] \<and> p = CHR ''.'' # fs)))"

definition literal_prefix :: "string \<Rightarrow> bool" where
  "literal_prefix t = (\<exists>p. prefix p t \<and> decimal_literal p)"

section \<open>The aggregation step of scrapeOpenSooq\<close>

text \<open>\<^verbatim>\<open>item.price !== null && item.price > 0\<close>\<close>

definition has_price :: "ScrapedItem \<Rightarrow> bool" where
  "has_price item = (case price item of None \<Rightarrow> False | Some p \<Rightarrow> js_gt p (num 0))"

text \<open>scraper.ts, lines 296-313: what \<^verbatim>\<open>scrapeOpenSooq\<close> does with the scraped items. The sum
  is accumulated from 0 through the prices in order, each addition rounded; the length of
  the array divides it.\<close>

definition aggregate :: "ScrapedItem list \<Rightarrow> ScrapeResult" where
  "aggregate its =
     (let itemsWithPrices = filter has_price its;
          prices = List.map_filter (\<lambda>p. p) (map price itemsWithPrices)
      in \<lparr> items = itemsWithPrices,
           minPrice = (if length prices > 0 then Some (Math_min prices) else None),
           maxPrice = (if length prices > 0 then Some (Math_max prices) else None),
           avgPrice = (if length prices > 0
                       then Some (Math_round (num_div (fold (\<lambda>b a. num_add a b) prices (num 0))
                                                       (num (of_nat (length prices)))))
                       else None),
           totalItems = length itemsWithPrices \<rparr>)"

text \<open>An item with the given link and price and nothing else, for the examples.\<close>

definition example_item :: "string \<Rightarrow> number option \<Rightarrow> ScrapedItem" where
  "example_item l p = \<lparr> link = l, title = [], image = [], price = p, priceText = [],
     description = [], attributes = Map.empty \<rparr>"

section \<open>detectOutliers\<close>

text \<open>
  App.tsx, lines 8-39. The priced items are kept as pairs of link and price; the prices are
  sorted ascending (\<^verbatim>\<open>sort((a, b) => a - b)\<close>, on numbers none of which is \<^verbatim>\<open>NaN\<close>); the two
  quartiles are read at the indices \<^verbatim>\<open>Math.floor(length * 0.25)\<close> and
  \<^verbatim>\<open>Math.floor(length * 0.75)\<close>, which are exact for the length of an array; the range and
  the two bounds are computed in the arithmetic of numbers; the loop adds to the set the
  link of every pair whose price is below the lower or above the upper bound.
\<close>

definition detectOutliers :: "ScrapedItem list \<Rightarrow> string set" where
  "detectOutliers its =
     (let prices = map (\<lambda>item. (link item, the (price item))) (filter has_price its) in
      if length prices < 4 then {}
      else (let sortedPrices = sort (map snd prices);
                q1Index = nat \<lfloor>of_nat (length sortedPrices) * (0.25 :: rat)\<rfloor>;
                q3Index = nat \<lfloor>of_nat (length sortedPrices) * (0.75 :: rat)\<rfloor>;
                q1 = sortedPrices ! q1Index;
                q3 = sortedPrices ! q3Index;
                iqr = num_sub q3 q1;
                lowerBound = num_sub q1 (num_mul (num 2.0) iqr);
                upperBound = num_add q3 (num_mul (num 2.0) iqr)
            in fold (\<lambda>(l, p) outliers.
                       if js_lt p lowerBound \<or> js_gt p upperBound then insert l outliers
                       else outliers)
                 prices {}))"

text \<open>Example inputs: four ordinary prices, one extreme price and an item without a price;
  four equal prices with one that differs; and five prices with fractions.\<close>

definition outlier_example :: "ScrapedItem list" where
  "outlier_example =
     [example_item ''a'' (Some (num 10)), example_item ''b'' (Some (num 12)),
      example_item ''x'' None, example_item ''c'' (Some (num 11)),
      example_item ''d'' (Some (num 13)), example_item ''e'' (Some (num 1000))]"

definition flat_example :: "ScrapedItem list" where
  "flat_example =
     [example_item ''a'' (Some (num 5)), example_item ''b'' (Some (num 9)),
      example_item ''c'' (Some (num 5)), example_item ''d'' (Some (num 5)),
      example_item ''e'' (Some (num 5))]"

definition fraction_example :: "ScrapedItem list" where
  "fraction_example =
     [example_item ''a'' (Some (num 0.1)), example_item ''b'' (Some (num 0.1)),
      example_item ''c'' (Some (num 0.5)), example_item ''d'' (Some (num 0.5)),
      example_item ''e'' (Some (num 1.3))]"

section \<open>The network and fetchPageWithRetry\<close>

text \<open>
  A thrown error, told apart the way the code tells errors apart: by
  \<^verbatim>\<open>error.response?.status\<close>. \<open>HttpStatus s\<close> is an error of the HTTP client that carries the
  response of status \<open>s\<close>; \<open>NoStatus\<close> is any error with no response (a network failure, a
  timeout, any other exception).
\<close>

datatype error = NoStatus | HttpStatus nat

text \<open>
  What the program does to the outside is recorded as a list of events: a GET request of a
  URL and a wait of some milliseconds. The outside itself is a state \<open>'w\<close>, and
  \<^verbatim>\<open>axios.get\<close> is a function that, from a URL and that state, gives the page or the error
  and the next state. A function of the program that awaits takes the state and returns its
  result, the events it caused in order, and the state it leaves.
\<close>

datatype event = Request url | Delay nat

type_synonym 'w http = "url \<Rightarrow> 'w \<Rightarrow> (error + html) \<times> 'w"

definition CONCURRENT_REQUESTS :: nat where "CONCURRENT_REQUESTS = 5"
definition INITIAL_DELAY :: nat where "INITIAL_DELAY = 300"
definition MAX_RETRIES :: nat where "MAX_RETRIES = 3"

text \<open>\<^verbatim>\<open>axiosError.response?.status\<close>\<close>

definition status_of :: "error \<Rightarrow> nat option" where
  "status_of e = (case e of NoStatus \<Rightarrow> None | HttpStatus s \<Rightarrow> Some s)"

text \<open>\<^verbatim>\<open>status === 429 || status === 503 || status === 502 || !status\<close>: a status is falsy
  when it is missing or 0.\<close>

definition retry_status :: "nat option \<Rightarrow> bool" where
  "retry_status status =
     (status = Some 429 \<or> status = Some 503 \<or> status = Some 502 \<or>
      (case status of None \<Rightarrow> True | Some s \<Rightarrow> s = 0))"

text \<open>scraper.ts, lines 13-39. The caller writes \<^verbatim>\<open>fetchPageWithRetry(url)\<close>, which is
  \<open>fetchPageWithRetry get u MAX_RETRIES INITIAL_DELAY\<close>.\<close>

fun fetchPageWithRetry ::
  "'w http \<Rightarrow> url \<Rightarrow> nat \<Rightarrow> nat \<Rightarrow> 'w \<Rightarrow> (error + html) \<times> event list \<times> 'w" where
  "fetchPageWithRetry get u retries delayMs w =
     (case get u w of
        (Inr data, w1) \<Rightarrow> (Inr data, [Request u], w1)
      | (Inl err, w1) \<Rightarrow>
          if retries > 0 \<and> retry_status (status_of err)
          then (let backoffDelay = delayMs * 2;
                    (r, evs, w2) = fetchPageWithRetry get u (retries - 1) backoffDelay w1
                in (r, Request u # Delay backoffDelay # evs, w2))
          else (Inl err, [Request u], w1))"

text \<open>The requests and the waits among some events.\<close>

fun is_request :: "event \<Rightarrow> bool" where
  "is_request (Request u) = True"
| "is_request (Delay ms) = False"

definition attempts :: "event list \<Rightarrow> nat" where
  "attempts evs = length (filter is_request evs)"

fun waits :: "event list \<Rightarrow> nat list" where
  "waits [] = []"
| "waits (Request u # evs) = waits evs"
| "waits (Delay ms # evs) = ms # waits evs"

text \<open>A scripted outside for the examples: the state is the list of the answers still to be
  given, one per request, whatever the URL; when they run out, the network fails.\<close>

definition scripted :: "(error + html) list http" where
  "scripted u w = (case w of [] \<Rightarrow> (Inl NoStatus, []) | r # rs \<Rightarrow> (r, rs))"

text \<open>A request, then for each of the given delays a wait and a request.\<close>

definition backoff_events :: "url \<Rightarrow> nat list \<Rightarrow> event list" where
  "backoff_events u ds = Request u # concat (map (\<lambda>ms. [Delay ms, Request u]) ds)"

section \<open>The detail page: scrapeItemDetails\<close>

text \<open>
  Strings are the UTF-8 bytes of their text. \<^verbatim>\<open>String.prototype.trim\<close> removes from both
  ends the white space and the line terminators of the language: the code points 9 to 13
  and 32, U+00A0, U+1680, U+2000 to U+200A, U+2028, U+2029, U+202F, U+205F, U+3000 and
  U+FEFF, here by their encodings.
\<close>

definition js_whitespace :: "string list" where
  "js_whitespace =
     [ [CHR 0x09], [CHR 0x0A], [CHR 0x0B], [CHR 0x0C], [CHR 0x0D], [CHR 0x20],
       [CHR 0xC2, CHR 0xA0], [CHR 0xE1, CHR 0x9A, CHR 0x80],
       [CHR 0xE2, CHR 0x80, CHR 0x80], [CHR 0xE2, CHR 0x80, CHR 0x81],
       [CHR 0xE2, CHR 0x80, CHR 0x82], [CHR 0xE2, CHR 0x80, CHR 0x83],
       [CHR 0xE2, CHR 0x80, CHR 0x84], [CHR 0xE2, CHR 0x80, CHR 0x85],
       [CHR 0xE2, CHR 0x80, CHR 0x86], [CHR 0xE2, CHR 0x80, CHR 0x87],
       [CHR 0xE2, CHR 0x80, CHR 0x88], [CHR 0xE2, CHR 0x80, CHR 0x89],
       [CHR 0xE2, CHR 0x80, CHR 0x8A], [CHR 0xE2, CHR 0x80, CHR 0xA8],
       [CHR 0xE2, CHR 0x80, CHR 0xA9], [CHR 0xE2, CHR 0x80, CHR 0xAF],
       [CHR 0xE2, CHR 0x81, CHR 0x9F], [CHR 0xE3, CHR 0x80, CHR 0x80],
       [CHR 0xEF, CHR 0xBB, CHR 0xBF] ]"

text \<open>The string without the leading occurrences of the given sequences.\<close>

function strip_leading :: "string list \<Rightarrow> string \<Rightarrow> string" where
  "strip_leading seqs s =
     (case find (\<lambda>ws. ws \<noteq> [] \<and> prefix ws s) seqs of
        None \<Rightarrow> s
      | Some ws \<Rightarrow> strip_leading seqs (drop (length ws) s))"
  by pat_completeness auto
termination
proof (relation "measure (\<lambda>(seqs, s). length s)")
  show "wf (measure (\<lambda>(seqs, s). length s))" by simp
next
  fix seqs :: "string list" and s ws :: string
  assume "find (\<lambda>ws. ws \<noteq> [] \<and> prefix ws s) seqs = Some ws"
  then have "ws \<noteq> []" "prefix ws s" by (auto simp: find_Some_iff)
  then have "length (drop (length ws) s) < length s"
    by (cases ws; cases s) (auto simp: prefix_def)
  then show "((seqs, drop (length ws) s), (seqs, s)) \<in> measure (\<lambda>(seqs, s). length s)" by simp
qed

definition trim :: "string \<Rightarrow> string" where
  "trim s = rev (strip_leading (map rev js_whitespace) (rev (strip_leading js_whitespace s)))"

text \<open>\<^verbatim>\<open>split(',')\<close>\<close>

fun split_comma :: "string \<Rightarrow> string list" where
  "split_comma [] = [Nil]"
| "split_comma (c # cs) =
     (if c = CHR '','' then [] # split_comma cs
      else (case split_comma cs of [] \<Rightarrow> [c # Nil] | p # ps \<Rightarrow> (c # p) # ps))"

text \<open>
  The markup library is not modelled. An element is what the code reads of it: the text of
  its first \<^verbatim>\<open>p\<close>, whether it has the class \<^verbatim>\<open>fullRow\<close>, how many \<^verbatim>\<open>p.width-75\<close> it has and
  their text, and the text of its first \<^verbatim>\<open>a.bold, span.bold\<close>. A detail page is what the
  code selects from it: the texts of the price and of the description, the elements whose
  \<^verbatim>\<open>data-id\<close> starts with \<^verbatim>\<open>singeInfoField_\<close> and the elements \<^verbatim>\<open>li.fullRow\<close>, in document
  order.
\<close>

record Element =
  p_first_text :: string
  hasClass_fullRow :: bool
  p_width75_count :: nat
  p_width75_text :: string
  bold_first_text :: string

record DetailDom =
  post_price_text :: string
  postViewDescription_text :: string
  singeInfoFields :: "Element list"
  li_fullRows :: "Element list"

text \<open>What \<^verbatim>\<open>scrapeItemDetails\<close> returns: four of the fields of a \<^verbatim>\<open>ScrapedItem\<close>.\<close>

record ItemDetails =
  d_price :: "number option"
  d_priceText :: string
  d_description :: string
  d_attributes :: "string \<rightharpoonup> attr_value"

text \<open>Lines 74-75 and 94-95: \<^verbatim>\<open>values.length > 1 ? values : valueText\<close>.\<close>

definition comma_value :: "string \<Rightarrow> attr_value" where
  "comma_value valueText =
     (let values = filter (\<lambda>v. v \<noteq> []) (map trim (split_comma valueText))
      in if length values > 1 then Multi values else Scalar valueText)"

text \<open>
  \<^verbatim>\<open>attributes[key] = v\<close> on the plain object \<^verbatim>\<open>attributes\<close>, of which the map holds the own
  properties. The key \<^verbatim>\<open>__proto__\<close> is the one inherited accessor: an assignment under it
  goes to the setter of \<^verbatim>\<open>Object.prototype\<close> and stores no own property.
\<close>

definition assign :: "(string \<rightharpoonup> attr_value) \<Rightarrow> string \<Rightarrow> attr_value \<Rightarrow> (string \<rightharpoonup> attr_value)" where
  "assign attrs key v = (if key = ''__proto__'' then attrs else attrs(key \<mapsto> v))"

text \<open>Lines 65-85, the body of the first \<^verbatim>\<open>each\<close>.\<close>

definition singeInfoField_step :: "Element \<Rightarrow> (string \<rightharpoonup> attr_value) \<Rightarrow> (string \<rightharpoonup> attr_value)" where
  "singeInfoField_step el attrs =
     (let key = trim (p_first_text el) in
      if hasClass_fullRow el \<or> p_width75_count el > 0
      then (let valueText = trim (p_width75_text el) in
            if valueText \<noteq> [] then assign attrs key (comma_value valueText) else attrs)
      else (let val = trim (bold_first_text el) in
            if key \<noteq> [] \<and> val \<noteq> [] then assign attrs key (Scalar val) else attrs))"

text \<open>Lines 88-97, the body of the second \<^verbatim>\<open>each\<close>.\<close>

definition li_fullRow_step :: "Element \<Rightarrow> (string \<rightharpoonup> attr_value) \<Rightarrow> (string \<rightharpoonup> attr_value)" where
  "li_fullRow_step el attrs =
     (let key = trim (p_first_text el);
          valueText = trim (p_width75_text el) in
      if key \<noteq> [] \<and> valueText \<noteq> [] \<and> key \<noteq> ''VIN Number''
      then assign attrs key (comma_value valueText) else attrs)"

definition first_pass :: "Element list \<Rightarrow> (string \<rightharpoonup> attr_value) \<Rightarrow> (string \<rightharpoonup> attr_value)" where
  "first_pass els attrs = fold singeInfoField_step els attrs"

definition second_pass :: "Element list \<Rightarrow> (string \<rightharpoonup> attr_value) \<Rightarrow> (string \<rightharpoonup> attr_value)" where
  "second_pass els attrs = fold li_fullRow_step els attrs"

text \<open>Lines 54-99: the block of the \<^verbatim>\<open>try\<close> after the page is loaded.\<close>

definition extract_details :: "DetailDom \<Rightarrow> ItemDetails" where
  "extract_details page_dom =
     (let txt = trim (post_price_text page_dom);
          p = parsePrice txt;
          desc = trim (postViewDescription_text page_dom);
          attrs = second_pass (li_fullRows page_dom) (first_pass (singeInfoFields page_dom) Map.empty)
      in \<lparr> d_price = p, d_priceText = txt, d_description = desc, d_attributes = attrs \<rparr>)"

text \<open>Line 102: what the \<^verbatim>\<open>catch\<close> returns.\<close>

definition zero_details :: ItemDetails where
  "zero_details = \<lparr> d_price = None, d_priceText = [], d_description = [], d_attributes = Map.empty \<rparr>"

text \<open>
  The parts of the outside the scraper is given: \<^verbatim>\<open>axios.get\<close>; \<^verbatim>\<open>getBaseUrl\<close>, which
  throws when \<^verbatim>\<open>new URL(url)\<close> does; \<^verbatim>\<open>cheerio.load\<close> followed by
  \<^verbatim>\<open>extractListingsFromPage\<close> on a page of results; and \<^verbatim>\<open>cheerio.load\<close> followed by the
  selections on a detail page. Loading a page can throw.
\<close>

record PageExtractionResult =
  listings :: "ListingItem list"
  hasRecommendedListings :: bool
  nextPageUrl :: "string option"

record 'w env =
  axios_get :: "'w http"
  getBaseUrl :: "string \<Rightarrow> error + string"
  extractListingsFromPage :: "html \<Rightarrow> string \<Rightarrow> error + PageExtractionResult"
  load_detail_page :: "html \<Rightarrow> error + DetailDom"

text \<open>scraper.ts, lines 49-104. Every error inside the \<^verbatim>\<open>try\<close> (of the fetch, of the
  loading) goes to the \<^verbatim>\<open>catch\<close>; what the function did to the outside before stays done.\<close>

definition scrapeItemDetails :: "'w env \<Rightarrow> url \<Rightarrow> 'w \<Rightarrow> (error + ItemDetails) \<times> event list \<times> 'w" where
  "scrapeItemDetails env u w =
     (case fetchPageWithRetry (axios_get env) u MAX_RETRIES INITIAL_DELAY w of
        (Inl err, evs, w1) \<Rightarrow> (Inr zero_details, evs, w1)
      | (Inr page, evs, w1) \<Rightarrow>
          (case load_detail_page env page of
             Inl err \<Rightarrow> (Inr zero_details, evs, w1)
           | Inr page_dom \<Rightarrow> (Inr (extract_details page_dom), evs, w1)))"

section \<open>processInBatches\<close>

text \<open>
  \<^verbatim>\<open>Promise.all(batch.map((item, batchIndex) => processor(item, i + batchIndex)))\<close>: every
  processor of the batch runs (here one after the other, in the order of the batch), and the
  whole is rejected when one of them is. Of several rejections the language reports the
  first in time; the requests of a batch have no order in time here, and the first in the
  order of the batch is reported. The processor that \<^verbatim>\<open>scrapeOpenSooq\<close> passes is never
  rejected.
\<close>

fun run_batch ::
  "('a \<Rightarrow> nat \<Rightarrow> 'w \<Rightarrow> (error + 'r) \<times> event list \<times> 'w) \<Rightarrow> 'a list \<Rightarrow> nat \<Rightarrow> 'w \<Rightarrow>
   (error + 'r) list \<times> event list \<times> 'w" where
  "run_batch processor [] index w = ([], [], w)"
| "run_batch processor (item # batch) index w =
     (let (r, evs, w1) = processor item index w;
          (rs, evs2, w2) = run_batch processor batch (index + 1) w1
      in (r # rs, evs @ evs2, w2))"

fun Promise_all :: "(error + 'r) list \<Rightarrow> error + 'r list" where
  "Promise_all [] = Inr []"
| "Promise_all (Inl e # rs) = Inl e"
| "Promise_all (Inr v # rs) = (case Promise_all rs of Inl e \<Rightarrow> Inl e | Inr vs \<Rightarrow> Inr (v # vs))"

text \<open>
  scraper.ts, lines 202-227: the \<^verbatim>\<open>for\<close> loop, from the index \<open>i\<close> with the results so far.
  With a concurrency of 0 and an item left the index never grows and the loop does not end:
  the result is \<open>None\<close>.
\<close>

function processInBatches_loop ::
  "'a list \<Rightarrow> ('a \<Rightarrow> nat \<Rightarrow> 'w \<Rightarrow> (error + 'r) \<times> event list \<times> 'w) \<Rightarrow> nat \<Rightarrow> nat \<Rightarrow>
   nat \<Rightarrow> 'r list \<Rightarrow> 'w \<Rightarrow> ((error + 'r list) \<times> event list \<times> 'w) option" where
  "processInBatches_loop its processor concurrency delayBetweenBatches i results w =
     (if i < length its then
        (if concurrency = 0 then None
         else (let batch = take concurrency (drop i its);
                   (rs, evs, w1) = run_batch processor batch i w
               in case Promise_all rs of
                    Inl e \<Rightarrow> Some (Inl e, evs, w1)
                  | Inr batchResults \<Rightarrow>
                      (let results' = results @ batchResults;
                           evs2 = (if i + concurrency < length its
                                   then [Delay delayBetweenBatches] else [])
                       in case processInBatches_loop its processor concurrency delayBetweenBatches
                                 (i + concurrency) results' w1 of
                            None \<Rightarrow> None
                          | Some (r, evs3, w2) \<Rightarrow> Some (r, evs @ evs2 @ evs3, w2))))
      else Some (Inr results, [], w))"
  by pat_completeness auto
termination
  by (relation "measure (\<lambda>(its, processor, concurrency, d, i, results, w). length its - i)") auto

definition processInBatches ::
  "'a list \<Rightarrow> ('a \<Rightarrow> nat \<Rightarrow> 'w \<Rightarrow> (error + 'r) \<times> event list \<times> 'w) \<Rightarrow> nat \<Rightarrow> nat \<Rightarrow> 'w \<Rightarrow>
   ((error + 'r list) \<times> event list \<times> 'w) option" where
  "processInBatches its processor concurrency delayBetweenBatches w =
     processInBatches_loop its processor concurrency delayBetweenBatches 0 [] w"

section \<open>scrapeOpenSooq\<close>

text \<open>Lines 248-253: the listings of one page are added to the accumulated ones.\<close>

fun add_unique ::
  "ListingItem list \<Rightarrow> string set \<times> ListingItem list \<Rightarrow> string set \<times> ListingItem list" where
  "add_unique [] (seenLinks, allListings) = (seenLinks, allListings)"
| "add_unique (listing # rest) (seenLinks, allListings) =
     (if link listing \<notin> seenLinks
      then add_unique rest (insert (link listing) seenLinks, allListings @ [listing])
      else add_unique rest (seenLinks, allListings))"

text \<open>A page URL that is \<^verbatim>\<open>null\<close> or the empty string is falsy.\<close>

definition truthy :: "string option \<Rightarrow> bool" where
  "truthy currentPageUrl = (case currentPageUrl of None \<Rightarrow> False | Some u \<Rightarrow> u \<noteq> [])"

text \<open>
  Lines 239-271, the \<^verbatim>\<open>while\<close> loop. Nothing bounds the number of its rounds, so the model
  takes \<open>fuel\<close>, the number of pages it may fetch: \<open>None\<close> says that the loop asked for one
  more. An error of the fetch or of the loading leaves the loop and the function.
\<close>

fun crawl ::
  "nat \<Rightarrow> 'w env \<Rightarrow> string \<Rightarrow> string option \<Rightarrow> string set \<Rightarrow> ListingItem list \<Rightarrow> 'w \<Rightarrow>
   ((error + ListingItem list) \<times> event list \<times> 'w) option" where
  "crawl fuel env baseUrl currentPageUrl seenLinks allListings w =
     (if \<not> truthy currentPageUrl then Some (Inr allListings, [], w)
      else (case fuel of
              0 \<Rightarrow> None
            | Suc fuel' \<Rightarrow>
               (case fetchPageWithRetry (axios_get env) (the currentPageUrl) MAX_RETRIES INITIAL_DELAY w of
                  (Inl err, evs, w1) \<Rightarrow> Some (Inl err, evs, w1)
                | (Inr page, evs, w1) \<Rightarrow>
                   (case extractListingsFromPage env page baseUrl of
                      Inl err \<Rightarrow> Some (Inl err, evs, w1)
                    | Inr ex \<Rightarrow>
                       (let (seenLinks', allListings') =
                              add_unique (listings ex) (seenLinks, allListings)
                        in if hasRecommendedListings ex then Some (Inr allListings', evs, w1)
                           else (let evs2 = (if truthy (nextPageUrl ex) then [Delay 500] else [])
                                 in case crawl fuel' env baseUrl (nextPageUrl ex) seenLinks'
                                           allListings' w1 of
                                      None \<Rightarrow> None
                                    | Some (r, evs3, w2) \<Rightarrow> Some (r, evs @ evs2 @ evs3, w2)))))))"

text \<open>Lines 278-291: the processor of one listing.\<close>

definition detail_processor ::
  "'w env \<Rightarrow> ListingItem \<Rightarrow> nat \<Rightarrow> 'w \<Rightarrow> (error + ScrapedItem) \<times> event list \<times> 'w" where
  "detail_processor env listing index w =
     (case scrapeItemDetails env (link listing) w of
        (Inl err, evs, w1) \<Rightarrow> (Inl err, evs, w1)
      | (Inr details, evs, w1) \<Rightarrow>
          (Inr \<lparr> link = link listing, title = title listing, image = image listing,
                 price = d_price details, priceText = d_priceText details,
                 description = d_description details, attributes = d_attributes details \<rparr>,
           evs, w1))"

text \<open>scraper.ts, lines 229-314: first the pagination (lines 232-271), from the seed URL
  with nothing seen and nothing accumulated; then the details of the listings in batches and
  the aggregation.\<close>

definition collect_listings ::
  "nat \<Rightarrow> 'w env \<Rightarrow> string \<Rightarrow> 'w \<Rightarrow> ((error + ListingItem list) \<times> event list \<times> 'w) option" where
  "collect_listings fuel env u w =
     (case getBaseUrl env u of
        Inl err \<Rightarrow> Some (Inl err, [], w)
      | Inr baseUrl \<Rightarrow> crawl fuel env baseUrl (Some u) {} [] w)"

definition scrapeOpenSooq ::
  "nat \<Rightarrow> 'w env \<Rightarrow> string \<Rightarrow> 'w \<Rightarrow> ((error + ScrapeResult) \<times> event list \<times> 'w) option" where
  "scrapeOpenSooq fuel env u w =
     (case collect_listings fuel env u w of
        None \<Rightarrow> None
      | Some (Inl err, evs, w1) \<Rightarrow> Some (Inl err, evs, w1)
      | Some (Inr allListings, evs, w1) \<Rightarrow>
          (case processInBatches allListings (detail_processor env) CONCURRENT_REQUESTS 500 w1 of
             None \<Rightarrow> None
           | Some (Inl err, evs2, w2) \<Rightarrow> Some (Inl err, evs @ evs2, w2)
           | Some (Inr its, evs2, w2) \<Rightarrow> Some (Inr (aggregate its), evs @ evs2, w2)))"

section \<open>An example site\<close>

text \<open>
  A small outside for the examples, over the scripted network. The page of results \<open>p1\<close>
  lists \<open>a\<close> and \<open>b\<close> and has a next page; \<open>p2\<close> lists \<open>b\<close> again and \<open>c\<close> and has none.
  Loading the detail page \<open>bad\<close> throws; any other detail page has its whole text as the
  text of its price and nothing else.
\<close>

definition example_listing :: "string \<Rightarrow> ListingItem" where
  "example_listing l = \<lparr> link = l, title = [], image = [] \<rparr>"

definition example_listing_page :: "html \<Rightarrow> string \<Rightarrow> error + PageExtractionResult" where
  "example_listing_page page baseUrl =
     (if page = ''p1''
      then Inr \<lparr> listings = [example_listing ''a'', example_listing ''b''],
                 hasRecommendedListings = False, nextPageUrl = Some ''u2'' \<rparr>
      else if page = ''p2''
      then Inr \<lparr> listings = [example_listing ''b'', example_listing ''c''],
                 hasRecommendedListings = False, nextPageUrl = None \<rparr>
      else Inl NoStatus)"

definition example_detail_page :: "html \<Rightarrow> error + DetailDom" where
  "example_detail_page page =
     (if page = ''bad'' then Inl NoStatus
      else Inr \<lparr> post_price_text = page, postViewDescription_text = [],
                 singeInfoFields = [], li_fullRows = [] \<rparr>)"

definition example_env :: "(error + html) list env" where
  "example_env = \<lparr> axios_get = scripted, getBaseUrl = (\<lambda>u. Inr ''s''),
     extractListingsFromPage = example_listing_page, load_detail_page = example_detail_page \<rparr>"

text \<open>A detail page where an ordinary field and a full-row list item have the same label.\<close>

definition clash_fields :: "Element list" where
  "clash_fields = [\<lparr> p_first_text = ''Color'', hasClass_fullRow = False, p_width75_count = 0,
      p_width75_text = [], bold_first_text = ''Red'' \<rparr>]"

definition clash_rows :: "Element list" where
  "clash_rows = [\<lparr> p_first_text = ''Color'', hasClass_fullRow = True, p_width75_count = 1,
      p_width75_text = ''Blue'', bold_first_text = [] \<rparr>]"

text \<open>The answers of the example site to one run: the two pages of results, then the detail
  pages of \<open>a\<close>, \<open>b\<close> (not found) and \<open>c\<close>.\<close>

definition example_script :: "(error + html) list" where
  "example_script = [Inr ''p1'', Inr ''p2'', Inr ''10 JOD'', Inl (HttpStatus 404), Inr ''30 JOD'']"


section \<open>Properties of rounding\<close>

lemma pow2_pos [simp]: "0 < (2::rat) powi e"
  by (simp add: power_int_def)

lemma pow2_nat: "0 \<le> e \<Longrightarrow> (2::rat) powi e = 2 ^ nat e"
  by (simp add: power_int_def)

lemma pow2_less_iff [simp]: "(2::rat) powi a < 2 powi b \<longleftrightarrow> a < b"
proof
  assume "(2::rat) powi a < 2 powi b"
  show "a < b"
  proof (rule ccontr)
    assume "\<not> a < b"
    then have "b \<le> a" by simp
    then have "(2::rat) powi b \<le> 2 powi a" by (intro power_int_increasing) simp_all
    with \<open>(2::rat) powi a < 2 powi b\<close> show False by simp
  qed
next
  assume "a < b"
  then show "(2::rat) powi a < 2 powi b" by (intro power_int_strict_increasing) simp_all
qed

lemma pow2_le_iff [simp]: "(2::rat) powi a \<le> 2 powi b \<longleftrightarrow> a \<le> b"
  using pow2_less_iff [of b a] by (auto simp: not_less [symmetric] simp del: pow2_less_iff)

lemma pow2_add: "(2::rat) powi (a + b) = 2 powi a * 2 powi b"
  by (simp add: power_int_add)

lemma pow2_diff: "(2::rat) powi (a - b) = 2 powi a / 2 powi b"
  by (simp add: power_int_diff)

lemma pow2_split: "(2::rat) powi a = 2 powi (a - b) * 2 powi b"
  using power_int_add [of "2::rat" "a - b" b] by simp

lemma ilog2_bounds:
  assumes "0 < x"
  shows "2 powi (ilog2 x) \<le> x" and "x < 2 powi (ilog2 x + 1)"
proof -
  have "2 powi (ilog2 x) \<le> x \<and> x < 2 powi (ilog2 x + 1)"
  proof (cases "1 \<le> x")
    case True
    then have f: "0 < \<lfloor>x\<rfloor>" by linarith
    from bitlen_bounds [OF f] have b: "2 ^ nat (bitlen \<lfloor>x\<rfloor> - 1) \<le> \<lfloor>x\<rfloor>" "\<lfloor>x\<rfloor> < 2 ^ nat (bitlen \<lfloor>x\<rfloor>)"
      by simp_all
    from f have b1: "1 \<le> bitlen \<lfloor>x\<rfloor>" by (simp add: bitlen_alt_def)
    have "(2::rat) powi (bitlen \<lfloor>x\<rfloor> - 1) = of_int (2 ^ nat (bitlen \<lfloor>x\<rfloor> - 1))"
      using b1 by (simp add: pow2_nat)
    also have "\<dots> \<le> of_int \<lfloor>x\<rfloor>" using b(1) by (simp only: of_int_le_iff)
    also have "\<dots> \<le> x" by simp
    finally have A: "2 powi (ilog2 x) \<le> x" using True by (simp add: ilog2_def)
    have "\<lfloor>x\<rfloor> + 1 \<le> 2 ^ nat (bitlen \<lfloor>x\<rfloor>)" using b(2) by simp
    then have "(of_int (\<lfloor>x\<rfloor> + 1) :: rat) \<le> of_int (2 ^ nat (bitlen \<lfloor>x\<rfloor>))"
      by (simp only: of_int_le_iff)
    moreover have "x < of_int (\<lfloor>x\<rfloor> + 1)" by linarith
    ultimately have "x < 2 ^ nat (bitlen \<lfloor>x\<rfloor>)" by simp
    then have "x < 2 powi (ilog2 x + 1)" using True b1 by (simp add: ilog2_def pow2_nat)
    with A show ?thesis by simp
  next
    case False
    define y where "y = 1 / x"
    from False assms have y: "1 < y" by (simp add: y_def)
    define c where "c = \<lceil>y\<rceil> - 1"
    from y have c: "0 < c" "of_int c < y" "y \<le> of_int c + 1" unfolding c_def by linarith+
    define k where "k = bitlen c"
    from bitlen_bounds [OF c(1)] have b: "2 ^ nat (k - 1) \<le> c" "c < 2 ^ nat k" by (simp_all add: k_def)
    from c(1) have k1: "1 \<le> k" by (simp add: k_def bitlen_alt_def)
    have i: "ilog2 x = - k" using False by (simp add: ilog2_def k_def c_def y_def)
    have "c + 1 \<le> 2 ^ nat k" using b(2) by simp
    then have "(of_int (c + 1) :: rat) \<le> of_int (2 ^ nat k)" by (simp only: of_int_le_iff)
    then have "(of_int c + 1 :: rat) \<le> 2 ^ nat k" by simp
    with c(3) have "y \<le> 2 ^ nat k" by linarith
    then have "y \<le> 2 powi k" using k1 by (simp add: pow2_nat)
    then have "1 / (2 powi k) \<le> 1 / y" using y by (intro divide_left_mono) simp_all
    then have A: "2 powi (ilog2 x) \<le> x" using assms by (simp add: i y_def power_int_minus field_simps)
    have "(of_int (2 ^ nat (k - 1)) :: rat) \<le> of_int c" using b(1) by (simp only: of_int_le_iff)
    then have "(2 ^ nat (k - 1) :: rat) \<le> of_int c" by simp
    with c(2) have "2 ^ nat (k - 1) < y" by linarith
    then have "2 powi (k - 1) < y" using k1 by (simp add: pow2_nat)
    then have "1 / y < 1 / (2 powi (k - 1))" using y by (intro divide_strict_left_mono) simp_all
    moreover have "1 / (2 powi (k - 1)) = (2::rat) powi (- k + 1)"
      using power_int_minus [of "2::rat" "k - 1"] by (simp add: field_simps)
    ultimately have "x < 2 powi (ilog2 x + 1)" using assms by (simp add: i y_def)
    with A show ?thesis by simp
  qed
  then show "2 powi (ilog2 x) \<le> x" and "x < 2 powi (ilog2 x + 1)" by simp_all
qed

lemma ilog2_unique:
  assumes "2 powi e \<le> x" "x < 2 powi (e + 1)"
  shows "ilog2 x = e"
proof -
  have x: "0 < x" using assms(1) pow2_pos [of e] by linarith
  note b = ilog2_bounds [OF x]
  have "2 powi e < (2::rat) powi (ilog2 x + 1)" using assms(1) b(2) by linarith
  then have "e < ilog2 x + 1" by simp
  moreover have "2 powi (ilog2 x) < (2::rat) powi (e + 1)" using assms(2) b(1) by linarith
  then have "ilog2 x < e + 1" by simp
  ultimately show ?thesis by simp
qed


lemma round_half_even_int [simp]: "round_half_even (of_int k) = k"
  by (simp add: round_half_even_def)

lemma round_half_even_error: "\<bar>of_int (round_half_even y) - y\<bar> \<le> 1 / 2"
proof -
  have "of_int \<lfloor>y\<rfloor> \<le> y" "y < of_int \<lfloor>y\<rfloor> + 1" by linarith+
  then show ?thesis by (auto simp: round_half_even_def Let_def)
qed

lemma round_half_even_ge: "of_int k \<le> y \<Longrightarrow> k \<le> round_half_even y"
proof -
  assume "of_int k \<le> y"
  then have "k \<le> \<lfloor>y\<rfloor>" by (simp add: le_floor_iff)
  then show ?thesis by (auto simp: round_half_even_def Let_def)
qed

lemma round_half_even_le: "y \<le> of_int k \<Longrightarrow> round_half_even y \<le> k"
proof -
  assume y: "y \<le> of_int k"
  show ?thesis
  proof (cases "y = of_int k")
    case True
    then show ?thesis by simp
  next
    case False
    with y have "y < of_int k" by simp
    then have "\<lfloor>y\<rfloor> < k" by (simp add: floor_less_iff)
    then show ?thesis by (auto simp: round_half_even_def Let_def)
  qed
qed

lemma round_double_at:
  assumes "x \<noteq> 0" "2 powi e \<le> \<bar>x\<bar>" "\<bar>x\<bar> < 2 powi (e + 1)"
  shows "round_double x =
     (let ulp = 2 powi (max e (- 1022) - 52);
          y = of_int (round_half_even (\<bar>x\<bar> / ulp)) * ulp
      in if 2 powi 1024 \<le> y then None else Some (sgn x * y))"
  using assms ilog2_unique [OF assms(2,3)] by (simp add: round_double_def Let_def)

text \<open>Every \<open>m * 2^j\<close> with \<open>|m| \<le> 2^53\<close>, \<open>j \<ge> -1074\<close> and magnitude below \<open>2^1024\<close> is a double.\<close>

lemma round_double_exact:
  assumes m: "\<bar>m\<bar> \<le> 2 ^ 53" and j: "- 1074 \<le> j" and x: "x = of_int m * 2 powi j"
    and r: "\<bar>x\<bar> < 2 powi 1024"
  shows "round_double x = Some x"
proof (cases "x = 0")
  case True
  then show ?thesis by (simp add: round_double_def)
next
  case False
  define a where "a = \<bar>x\<bar>"
  have a: "0 < a" "a = of_int \<bar>m\<bar> * 2 powi j" using False x by (simp_all add: a_def abs_mult)
  define e where "e = max (ilog2 a) (- 1022)"
  note b = ilog2_bounds [OF a(1)]
  have "\<exists>k::int. a / 2 powi (e - 52) = of_int k"
  proof (cases "0 \<le> j - e + 52")
    case True
    have "a / 2 powi (e - 52) = of_int \<bar>m\<bar> * 2 powi (j - e + 52)"
      unfolding a(2) using power_int_diff [of "2::rat" j "e - 52"] by (simp add: algebra_simps)
    also have "\<dots> = of_int (\<bar>m\<bar> * 2 ^ nat (j - e + 52))" using True by (simp add: pow2_nat)
    finally show ?thesis by blast
  next
    case False
    with j have e: "e = ilog2 a" "j + 52 < e" unfolding e_def by auto
    have "2 powi (j + 53) \<le> (2::rat) powi e" using e(2) by simp
    also have "\<dots> \<le> a" using b(1) e(1) by simp
    finally have "2 powi (j + 53) \<le> of_int \<bar>m\<bar> * (2::rat) powi j" using a(2) by simp
    then have "(2::rat) ^ 53 * 2 powi j \<le> of_int \<bar>m\<bar> * 2 powi j"
      by (simp add: pow2_add mult.commute)
    then have "(2::rat) ^ 53 \<le> of_int \<bar>m\<bar>" by simp
    then have "(of_int (2 ^ 53) :: rat) \<le> of_int \<bar>m\<bar>" by simp
    then have "2 ^ 53 \<le> \<bar>m\<bar>" by (simp only: of_int_le_iff)
    with m have m53: "\<bar>m\<bar> = 2 ^ 53" by simp
    then have a53: "a = 2 powi (j + 53)" using a(2) by (simp add: pow2_add mult.commute)
    then have "ilog2 a = j + 53" by (intro ilog2_unique) simp_all
    with e(1) have "e = j + 53" by simp
    moreover have "(2::rat) powi (j + 53) / 2 powi (j + 1) = 2 powi 52"
      using power_int_diff [of "2::rat" "j + 53" "j + 1"] by simp
    ultimately have "a / 2 powi (e - 52) = 2 powi 52" unfolding a53 by (simp add: add.commute)
    also have "\<dots> = of_int (2 ^ 52)" by simp
    finally show ?thesis by blast
  qed
  then obtain k :: int where k: "a / 2 powi (e - 52) = of_int k" by blast
  have "a / 2 powi (e - 52) * 2 powi (e - 52) = a" by simp
  with k have "of_int (round_half_even (a / 2 powi (e - 52))) * 2 powi (e - 52) = a"
    by (simp del: nonzero_divide_eq_eq times_divide_eq_left)
  with False r show ?thesis
    unfolding round_double_def Let_def a_def [symmetric] e_def [symmetric]
    by (simp add: a_def mult_sgn_abs)
qed

lemma round_double_int:
  assumes "\<bar>k\<bar> \<le> 2 ^ 53"
  shows "round_double (of_int k) = Some (of_int k)"
proof (rule round_double_exact [of k 0])
  have "\<bar>of_int k :: rat\<bar> = of_int \<bar>k\<bar>" by simp
  also have "\<dots> \<le> of_int (2 ^ 53)" using assms by (simp only: of_int_le_iff)
  also have "\<dots> < 2 powi 1024" by simp
  finally show "\<bar>of_int k :: rat\<bar> < 2 powi 1024" .
qed (use assms in simp_all)


lemma round_double_parts:
  assumes "x \<noteq> 0" "round_double x = Some y"
  obtains m :: int where "0 \<le> m" "m \<le> 2 ^ 53"
    "m = round_half_even (\<bar>x\<bar> / 2 powi (max (ilog2 \<bar>x\<bar>) (- 1022) - 52))"
    "y = sgn x * (of_int m * 2 powi (max (ilog2 \<bar>x\<bar>) (- 1022) - 52))"
    "of_int m * 2 powi (max (ilog2 \<bar>x\<bar>) (- 1022) - 52) < (2::rat) powi 1024"
proof -
  define a where "a = \<bar>x\<bar>"
  define e where "e = max (ilog2 a) (- 1022)"
  define u where "u = (2::rat) powi (e - 52)"
  define m where "m = round_half_even (a / u)"
  have a: "0 < a" using assms(1) by (simp add: a_def)
  have u: "0 < u" by (simp add: u_def)
  note b = ilog2_bounds [OF a]
  from assms have y: "y = sgn x * (of_int m * u)" "of_int m * u < 2 powi 1024"
    unfolding round_double_def Let_def a_def [symmetric] e_def [symmetric] u_def [symmetric]
      m_def [symmetric]
    by (auto split: if_splits)
  have "(of_int 0 :: rat) \<le> a / u" using a u by simp
  then have m0: "0 \<le> m" unfolding m_def by (rule round_half_even_ge)
  have "a < 2 powi (ilog2 a + 1)" by (rule b(2))
  also have "\<dots> \<le> 2 powi (e + 1)" by (simp add: e_def)
  also have "\<dots> = 2 powi 53 * u" unfolding u_def using pow2_split [of "e + 1" "e - 52"] by simp
  finally have "a / u < 2 powi 53" using u by (simp add: pos_divide_less_eq)
  then have "a / u \<le> of_int (2 ^ 53)" by simp
  then have m1: "m \<le> 2 ^ 53" unfolding m_def by (rule round_half_even_le)
  from that [of m] m0 m1 y show ?thesis
    unfolding m_def u_def e_def a_def by blast
qed

lemma round_double_idem:
  assumes "round_double x = Some y"
  shows "round_double y = Some y"
proof (cases "x = 0")
  case True
  with assms show ?thesis by (simp add: round_double_def)
next
  case False
  from round_double_parts [OF False assms] obtain m :: int where m: "0 \<le> m" "m \<le> 2 ^ 53"
    "y = sgn x * (of_int m * 2 powi (max (ilog2 \<bar>x\<bar>) (- 1022) - 52))"
    "of_int m * 2 powi (max (ilog2 \<bar>x\<bar>) (- 1022) - 52) < (2::rat) powi 1024" by blast
  define s :: int where "s = (if 0 < x then 1 else - 1)"
  have s: "sgn x = of_int s" using False by (simp add: s_def sgn_if)
  show ?thesis
  proof (rule round_double_exact [of "s * m" "max (ilog2 \<bar>x\<bar>) (- 1022) - 52"])
    show "\<bar>s * m\<bar> \<le> 2 ^ 53" using m(1,2) by (simp add: s_def abs_mult)
    show "- 1074 \<le> max (ilog2 \<bar>x\<bar>) (- 1022) - 52" by simp
    show "y = of_int (s * m) * 2 powi (max (ilog2 \<bar>x\<bar>) (- 1022) - 52)"
      unfolding m(3) s by simp
    have "\<bar>y\<bar> = of_int m * 2 powi (max (ilog2 \<bar>x\<bar>) (- 1022) - 52)"
      unfolding m(3) using m(1) False by (simp add: abs_mult)
    with m(4) show "\<bar>y\<bar> < 2 powi 1024" by simp
  qed
qed

lemma round_double_error:
  assumes "x \<noteq> 0" "round_double x = Some y"
  shows "\<bar>y - x\<bar> \<le> 2 powi (max (ilog2 \<bar>x\<bar>) (- 1022) - 53)"
proof -
  define u where "u = (2::rat) powi (max (ilog2 \<bar>x\<bar>) (- 1022) - 52)"
  have u: "0 < u" by (simp add: u_def)
  from round_double_parts [OF assms] obtain m :: int where
    m: "m = round_half_even (\<bar>x\<bar> / u)" "y = sgn x * (of_int m * u)"
    unfolding u_def by blast
  have "\<bar>y - x\<bar> = \<bar>sgn x * (of_int m * u) - sgn x * \<bar>x\<bar>\<bar>" unfolding m(2) by (simp add: mult_sgn_abs)
  also have "\<dots> = \<bar>of_int m * u - \<bar>x\<bar>\<bar>"
    using assms(1) by (simp add: right_diff_distrib [symmetric] abs_mult del: mult_sgn_abs)
  also have "\<dots> = \<bar>of_int m - \<bar>x\<bar> / u\<bar> * u"
  proof -
    have "of_int m * u - \<bar>x\<bar> = (of_int m - \<bar>x\<bar> / u) * u" using u by (simp add: field_simps)
    then show ?thesis using u by (simp add: abs_mult)
  qed
  also have "\<dots> \<le> 1 / 2 * u"
    using round_half_even_error [of "\<bar>x\<bar> / u"] u unfolding m(1) by (intro mult_right_mono) simp_all
  also have "\<dots> = 2 powi (max (ilog2 \<bar>x\<bar>) (- 1022) - 53)"
    unfolding u_def using power_int_diff [of "2::rat" "max (ilog2 \<bar>x\<bar>) (- 1022) - 52" 1] by simp
  finally show ?thesis .
qed


lemma num_Finite: "round_double x = Some y \<Longrightarrow> num x = Finite (Double y)"
  by (simp add: num_def)

lemma double_value_Double: "round_double x = Some y \<Longrightarrow> double_value (Double y) = y"
  by (rule Double_inverse) (simp add: round_double_idem)

lemma num_val_num: "round_double x = Some y \<Longrightarrow> num_val (num x) = y \<and> num_rank (num x) = 1"
  by (simp add: num_Finite double_value_Double)

lemma round_double_value [simp]: "round_double (double_value d) = Some (double_value d)"
  using double_value [of d] by simp

lemma num_double_value [simp]: "num (double_value d) = Finite d"
  by (simp add: num_def double_value_inverse)

lemma num_int: "\<bar>k\<bar> \<le> 2 ^ 53 \<Longrightarrow> num (of_int k) = Finite (Double (of_int k)) \<and>
    double_value (Double (of_int k)) = of_int k"
  using round_double_int [of k] by (simp add: num_Finite double_value_Double)

lemma round_double_cases:
  assumes "x \<noteq> 0"
  defines "u \<equiv> (2::rat) powi (max (ilog2 \<bar>x\<bar>) (- 1022) - 52)"
  defines "m \<equiv> round_half_even (\<bar>x\<bar> / u)"
  shows "0 \<le> m" "m \<le> 2 ^ 53"
    "round_double x = (if 2 powi 1024 \<le> of_int m * u then None else Some (sgn x * (of_int m * u)))"
proof -
  have a: "0 < \<bar>x\<bar>" using assms(1) by simp
  have u: "0 < u" by (simp add: u_def)
  note b = ilog2_bounds [OF a]
  have "(of_int 0 :: rat) \<le> \<bar>x\<bar> / u" using u by simp
  then show "0 \<le> m" unfolding m_def by (rule round_half_even_ge)
  have "\<bar>x\<bar> < 2 powi (ilog2 \<bar>x\<bar> + 1)" by (rule b(2))
  also have "\<dots> \<le> 2 powi (max (ilog2 \<bar>x\<bar>) (- 1022) + 1)" by simp
  also have "\<dots> = 2 powi 53 * u"
    unfolding u_def using pow2_split [of "max (ilog2 \<bar>x\<bar>) (- 1022) + 1" "max (ilog2 \<bar>x\<bar>) (- 1022) - 52"] by simp
  finally have "\<bar>x\<bar> / u < 2 powi 53" using u by (simp add: pos_divide_less_eq)
  then have "\<bar>x\<bar> / u \<le> of_int (2 ^ 53)" by simp
  then show "m \<le> 2 ^ 53" unfolding m_def by (rule round_half_even_le)
  show "round_double x = (if 2 powi 1024 \<le> of_int m * u then None else Some (sgn x * (of_int m * u)))"
    using assms(1) by (simp add: round_double_def Let_def m_def u_def)
qed

lemma round_double_Some:
  assumes "\<bar>x\<bar> < 2 powi 1023"
  shows "\<exists>y. round_double x = Some y"
proof (cases "x = 0")
  case True
  then show ?thesis by (simp add: round_double_def)
next
  case False
  define e where "e = max (ilog2 \<bar>x\<bar>) (- 1022)"
  define u where "u = (2::rat) powi (e - 52)"
  define m where "m = round_half_even (\<bar>x\<bar> / u)"
  note c = round_double_cases [OF False, folded e_def, folded u_def, folded m_def]
  have a: "0 < \<bar>x\<bar>" using False by simp
  have "2 powi (ilog2 \<bar>x\<bar>) \<le> \<bar>x\<bar>" by (rule ilog2_bounds [OF a])
  with assms have "(2::rat) powi (ilog2 \<bar>x\<bar>) < 2 powi 1023" by linarith
  then have "ilog2 \<bar>x\<bar> < 1023" by (simp only: pow2_less_iff)
  then have e: "e \<le> 1022" by (simp add: e_def)
  have "of_int m * u \<le> of_int (2 ^ 53) * u"
    using c(2) by (simp add: mult_right_mono u_def)
  also have "\<dots> = 2 powi (e + 1)" unfolding u_def using pow2_split [of "e + 1" "e - 52"] by simp
  also have "\<dots> < 2 powi 1024" using e by (simp only: pow2_less_iff)
  finally show ?thesis using c(3) by simp
qed

subsection \<open>Numbers that are exact\<close>

lemma num_exact:
  assumes "round_double x = Some x"
  shows "num x = Finite (Double x)" "double_value (Double x) = x" "num_val (num x) = x"
    "num_rank (num x) = 1" "num x \<noteq> NaN" "num x \<noteq> PosInfinity" "num x \<noteq> NegInfinity"
  using assms by (simp_all add: num_Finite double_value_Double)

lemma round_double_numeral:
  "(numeral n :: int) \<le> 2 ^ 53 \<Longrightarrow> round_double (numeral n) = Some (numeral n)"
  using round_double_int [of "numeral n"] by simp

lemma round_double_0: "round_double 0 = Some 0"
  by (simp add: round_double_def)

lemma round_double_1: "round_double 1 = Some 1"
  using round_double_int [of 1] by simp

lemma round_double_of_nat: "n \<le> 2 ^ 53 \<Longrightarrow> round_double (of_nat n) = Some (of_nat n)"
  using round_double_int [of "int n"] by simp

lemma round_double_minus: "round_double (- x) = map_option uminus (round_double x)"
  by (simp add: round_double_def Let_def sgn_minus)

lemma num_less_exact:
  assumes "round_double x = Some x" "round_double y = Some y"
  shows "num x < num y \<longleftrightarrow> x < y" "num x \<le> num y \<longleftrightarrow> x \<le> y" "num x = num y \<longleftrightarrow> x = y"
    "js_lt (num x) (num y) \<longleftrightarrow> x < y" "js_gt (num x) (num y) \<longleftrightarrow> y < x"
    "js_le (num x) (num y) \<longleftrightarrow> x \<le> y"
proof -
  note a = num_exact [OF assms(1)] and b = num_exact [OF assms(2)]
  show 1: "num x < num y \<longleftrightarrow> x < y" by (simp add: less_number_def a b)
  show 2: "num x \<le> num y \<longleftrightarrow> x \<le> y" by (simp add: less_eq_number_def a b)
  show "num x = num y \<longleftrightarrow> x = y"
  proof
    assume "num x = num y"
    then have "num_val (num x) = num_val (num y)" by (rule arg_cong)
    then show "x = y" by (simp only: a(3) b(3))
  next
    assume "x = y"
    then show "num x = num y" by (rule arg_cong)
  qed
  show "js_lt (num x) (num y) \<longleftrightarrow> x < y" using 1 a(5) b(5) by (simp add: js_lt_def)
  show "js_gt (num x) (num y) \<longleftrightarrow> y < x" using a(5) b(5) by (simp add: js_gt_def js_lt_def less_number_def a b)
  show "js_le (num x) (num y) \<longleftrightarrow> x \<le> y" using 2 a(5) b(5) by (simp add: js_le_def)
qed

lemma num_arith_exact:
  assumes "round_double x = Some x" "round_double y = Some y"
  shows "num_add (num x) (num y) = num (x + y)" "num_sub (num x) (num y) = num (x - y)"
    "num_mul (num x) (num y) = num (x * y)" "y \<noteq> 0 \<Longrightarrow> num_div (num x) (num y) = num (x / y)"
    "num_neg (num x) = num (- x)"
proof -
  note a = num_exact [OF assms(1)] and b = num_exact [OF assms(2)]
  have m: "round_double (- y) = Some (- y)" by (simp add: round_double_minus assms)
  note c = num_exact [OF m]
  show "num_add (num x) (num y) = num (x + y)" by (simp add: a b)
  show "num_neg (num x) = num (- x)" by (simp add: a)
  have "num_neg (num y) = num (- y)" by (simp add: b)
  then show "num_sub (num x) (num y) = num (x - y)" by (simp add: num_sub_def a(1,2) c(1,2))
  show "num_mul (num x) (num y) = num (x * y)" by (simp add: a b)
  show "y \<noteq> 0 \<Longrightarrow> num_div (num x) (num y) = num (x / y)" by (simp add: a b)
qed

lemma Math_round_exact:
  assumes "round_double x = Some x"
  shows "Math_round (num x) = num (of_int \<lfloor>x + 1 / 2\<rfloor>)"
  by (simp add: num_exact [OF assms])

lemma Math_round_int: "\<bar>k\<bar> \<le> 2 ^ 53 \<Longrightarrow> Math_round (num (of_int k)) = num (of_int k)"
proof -
  assume "\<bar>k\<bar> \<le> 2 ^ 53"
  then have r: "round_double (of_int k) = Some (of_int k)" by (rule round_double_int)
  have "\<lfloor>(of_int k :: rat) + 1 / 2\<rfloor> = k" by (rule floor_unique) simp_all
  then show ?thesis by (simp add: Math_round_exact [OF r])
qed

subsection \<open>The order of the numbers\<close>

lemma number_cases_order:
  "NegInfinity \<le> a" "a \<le> NaN" "a \<noteq> NaN \<Longrightarrow> a \<le> PosInfinity"
  "Finite d \<le> Finite d' \<longleftrightarrow> double_value d \<le> double_value d'"
  "Finite d < Finite d' \<longleftrightarrow> double_value d < double_value d'"
  by (cases a; simp add: less_eq_number_def less_number_def)+

lemma js_lt_not_le: "a \<noteq> NaN \<Longrightarrow> b \<noteq> NaN \<Longrightarrow> js_lt a b \<longleftrightarrow> \<not> b \<le> a"
  by (simp add: js_lt_def not_le)

lemma fold_min_Min: "fold min ps (a :: number) = Min (set (a # ps))"
  using Min.set_eq_fold [of a ps] by simp

lemma fold_max_Max: "fold max ps (a :: number) = Max (set (a # ps))"
  using Max.set_eq_fold [of a ps] by simp

lemma Math_min_Min:
  assumes "ps \<noteq> []" "NaN \<notin> set ps"
  shows "Math_min ps = Min (set ps)"
proof -
  have "Min (set ps) \<le> PosInfinity"
    using assms by (intro number_cases_order(3)) (metis Min_in List.finite_set set_empty)
  then have "min PosInfinity (Min (set ps)) = Min (set ps)" by (rule min_absorb2)
  moreover have "Min (insert PosInfinity (set ps)) = min PosInfinity (Min (set ps))"
    using assms(1) by (intro Min_insert) simp_all
  ultimately have "Min (insert PosInfinity (set ps)) = Min (set ps)" by (simp only:)
  then show ?thesis using assms(2) by (simp add: Math_min_def fold_min_Min)
qed

lemma Math_max_Max:
  assumes "ps \<noteq> []" "NaN \<notin> set ps"
  shows "Math_max ps = Max (set ps)"
proof -
  have "NegInfinity \<le> Max (set ps)" by (rule number_cases_order(1))
  then have "max NegInfinity (Max (set ps)) = Max (set ps)" by (rule max_absorb2)
  moreover have "Max (insert NegInfinity (set ps)) = max NegInfinity (Max (set ps))"
    using assms(1) by (intro Max_insert) simp_all
  ultimately have "Max (insert NegInfinity (set ps)) = Max (set ps)" by (simp only:)
  then show ?thesis using assms(2) by (simp add: Math_max_def fold_max_Max)
qed

subsection \<open>Rounding a mean of integers\<close>

lemma mean_round_floor:
  fixes s n :: int
  assumes n: "1 \<le> n" and ns: "n \<le> s" and s: "s < 2 ^ 52"
  shows "\<exists>y. round_double (of_int s / of_int n) = Some y \<and>
             \<lfloor>y + 1 / 2\<rfloor> = \<lfloor>(of_int s / of_int n :: rat) + 1 / 2\<rfloor>"
proof -
  define x :: rat where "x = of_int s / of_int n"
  define N :: rat where "N = of_int n"
  define S :: rat where "S = of_int s"
  have N1: "1 \<le> N" using n by (simp add: N_def)
  have N0: "0 < N" using N1 by linarith
  have SN: "N \<le> S" using ns by (simp add: N_def S_def)
  have S52: "S < 2 ^ 52"
  proof -
    have "(of_int s :: rat) < of_int (2 ^ 52)" using s by (simp only: of_int_less_iff)
    then show ?thesis by (simp add: S_def)
  qed
  have xN: "x * N = S" using N0 by (simp add: x_def N_def S_def)
  have x1: "1 \<le> x" using SN N0 by (simp add: x_def N_def [symmetric] S_def [symmetric] pos_le_divide_eq)
  have xS: "x \<le> S"
  proof -
    have "x * 1 \<le> x * N" using N1 x1 by (intro mult_left_mono) simp_all
    then show ?thesis using xN by simp
  qed
  have x0: "x \<noteq> 0" "\<bar>x\<bar> = x" "0 < x" using x1 by simp_all
  have "\<bar>x\<bar> < 2 powi 1023"
  proof -
    have "x < 2 ^ 52" using xS S52 by linarith
    also have "\<dots> < (2::rat) powi 1023" by simp
    finally show ?thesis using x0 by simp
  qed
  then obtain y where y: "round_double x = Some y" using round_double_Some by blast
  define e where "e = ilog2 x"
  have b: "2 powi e \<le> x" "x < 2 powi (e + 1)" unfolding e_def using ilog2_bounds [OF x0(3)] by simp_all
  have e0: "0 \<le> e"
  proof -
    have "(2::rat) powi 0 < 2 powi (e + 1)" using x1 b(2) by simp
    then have "0 < e + 1" by (simp only: pow2_less_iff)
    then show ?thesis by simp
  qed
  define d :: rat where "d = 2 powi (e - 53)"
  have err: "\<bar>y - x\<bar> \<le> d"
    using round_double_error [OF x0(1) y] e0 by (simp add: x0 e_def [symmetric] d_def max_def)
  have d0: "0 < d" by (simp add: d_def)
  have dN: "d * (2 * N) < 1"
  proof -
    have "2 powi e * N \<le> x * N" using b(1) N0 by (intro mult_right_mono) simp_all
    then have "2 powi e * N < 2 ^ 52" using xN S52 by linarith
    moreover have "d = 2 powi e / 2 ^ 53" unfolding d_def by (simp add: pow2_diff)
    then have "2 powi e = d * 2 ^ 53" by simp
    then have "2 powi e * N = (d * N) * 2 ^ 53" by (simp only: mult.assoc mult.commute [of N])
    ultimately have "(d * N) * 2 ^ 53 < 2 ^ 52" by (simp only:)
    moreover define c where "c = d * N"
    ultimately have "c * 2 ^ 53 < 2 ^ 52" by simp
    then have "2 * c < 1" by simp
    moreover have "d * (2 * N) = 2 * c" by (simp add: c_def)
    ultimately show ?thesis by (simp only:)
  qed
  define k where "k = \<lfloor>x + 1 / 2\<rfloor>"
  have kl: "of_int k \<le> x + 1 / 2" unfolding k_def by (rule of_int_floor_le)
  have ku: "x + 1 / 2 < of_int k + 1" unfolding k_def by linarith
  have il: "2 * n * k \<le> 2 * s + n"
  proof -
    have "of_int k * (2 * N) \<le> (x + 1 / 2) * (2 * N)" using kl N0 by (intro mult_right_mono) simp_all
    also have "\<dots> = 2 * S + N" using xN by (simp add: algebra_simps)
    finally have "(of_int (2 * n * k) :: rat) \<le> of_int (2 * s + n)"
      by (simp add: N_def S_def algebra_simps)
    then show ?thesis by (simp only: of_int_le_iff)
  qed
  have iu: "2 * s + n + 1 \<le> 2 * n * (k + 1)"
  proof -
    have "(x + 1 / 2) * (2 * N) < (of_int k + 1) * (2 * N)" using ku N0 by (intro mult_strict_right_mono) simp_all
    moreover have "(x + 1 / 2) * (2 * N) = 2 * S + N" using xN by (simp add: algebra_simps)
    ultimately have "(of_int (2 * s + n) :: rat) < of_int (2 * n * (k + 1))"
      by (simp add: N_def S_def algebra_simps)
    then have "2 * s + n < 2 * n * (k + 1)" by (simp only: of_int_less_iff)
    then show ?thesis by simp
  qed
  have up: "y + 1 / 2 < of_int k + 1"
  proof -
    have "(of_int (2 * s + n + 1) :: rat) \<le> of_int (2 * n * (k + 1))" using iu by (simp only: of_int_le_iff)
    then have "2 * S + N + 1 \<le> (of_int k + 1) * (2 * N)" by (simp add: N_def S_def algebra_simps)
    then have "(x + 1 / 2) * (2 * N) + 1 \<le> (of_int k + 1) * (2 * N)" using xN by (simp add: algebra_simps)
    then have "(x + 1 / 2) * (2 * N) + d * (2 * N) < (of_int k + 1) * (2 * N)" using dN by linarith
    then have "(x + 1 / 2 + d) * (2 * N) < (of_int k + 1) * (2 * N)" by (simp add: algebra_simps)
    then have "x + 1 / 2 + d < of_int k + 1" using N0 by (simp only: mult_less_cancel_right_pos)
    then show ?thesis using err by linarith
  qed
  have lo: "of_int k \<le> y + 1 / 2"
  proof (cases "2 * n * k = 2 * s + n")
    case True
    then have "(of_int (2 * n * k) :: rat) = of_int (2 * s + n)" by (simp only:)
    then have "of_int k * (2 * N) = 2 * S + N" by (simp add: N_def S_def algebra_simps)
    also have "\<dots> = (x + 1 / 2) * (2 * N)" using xN by (simp add: algebra_simps)
    finally have "of_int k = x + 1 / 2" using N0 by simp
    then have xk: "x = of_int (2 * k - 1) * 2 powi (- 1)" by (simp add: power_int_minus field_simps)
    have "of_int k \<le> S + 1 / 2" using kl xS by linarith
    then have "(of_int k :: rat) < of_int (2 ^ 52 + 1)" using S52 by simp
    then have "k < 2 ^ 52 + 1" by (simp only: of_int_less_iff)
    moreover have "1 \<le> k"
    proof -
      have "(of_int 0 :: rat) < of_int k" using \<open>of_int k = x + 1 / 2\<close> x1 by simp
      then have "0 < k" by (simp only: of_int_less_iff)
      then show ?thesis by simp
    qed
    ultimately have m: "\<bar>2 * k - 1\<bar> \<le> 2 ^ 53" by simp
    have "\<bar>x\<bar> < 2 powi 1024" using \<open>\<bar>x\<bar> < 2 powi 1023\<close> by (rule less_trans) simp
    with m xk have "round_double x = Some x" by (intro round_double_exact [of "2 * k - 1" "- 1"]) simp_all
    with y have "y = x" by simp
    with \<open>of_int k = x + 1 / 2\<close> show ?thesis by simp
  next
    case False
    with il have "2 * n * k + 1 \<le> 2 * s + n" by simp
    then have "(of_int (2 * n * k + 1) :: rat) \<le> of_int (2 * s + n)" by (simp only: of_int_le_iff)
    then have "of_int k * (2 * N) + 1 \<le> 2 * S + N" by (simp add: N_def S_def algebra_simps)
    then have "of_int k * (2 * N) + 1 \<le> (x + 1 / 2) * (2 * N)" using xN by (simp add: algebra_simps)
    then have "of_int k * (2 * N) + d * (2 * N) < (x + 1 / 2) * (2 * N)" using dN by linarith
    then have "(of_int k + d) * (2 * N) < (x + 1 / 2) * (2 * N)" by (simp add: algebra_simps)
    then have "of_int k + d < x + 1 / 2" using N0 by (simp only: mult_less_cancel_right_pos)
    then show ?thesis using err by linarith
  qed
  have "\<lfloor>y + 1 / 2\<rfloor> = k" using lo up by (intro floor_unique) simp_all
  then show ?thesis using y unfolding x_def k_def by blast
qed

section \<open>Properties of parsePrice\<close>

lemma is_digit_iff: "is_digit c \<longleftrightarrow> c \<in> set ''0123456789''"
proof (cases c)
  case (Char b0 b1 b2 b3 b4 b5 b6 b7)
  then show ?thesis
    by (cases b0; cases b1; cases b2; cases b3; cases b4; cases b5; cases b6; cases b7)
       (simp_all add: is_digit_def)
qed

lemma cleaned_stripped: "cleaned s = spec_stripped s"
  unfolding cleaned_def spec_stripped_def
  by (rule filter_cong) (auto simp: is_digit_iff)

lemma dot_not_digit: "\<not> is_digit CHR ''.''"
  by (simp add: is_digit_def)

lemma stripped_chars: "c \<in> set (spec_stripped s) \<Longrightarrow> is_digit c \<or> c = CHR ''.''"
  unfolding cleaned_stripped [symmetric] cleaned_def by simp

lemma num_not_NaN: "num x \<noteq> NaN"
  by (simp add: num_def split: option.splits)

lemma parseFloat_NaN_iff:
  "parseFloat t \<noteq> NaN \<longleftrightarrow>
     takeWhile is_digit t \<noteq> [] \<or> (\<exists>r. t = CHR ''.'' # r \<and> takeWhile is_digit r \<noteq> [])"
proof (cases "takeWhile is_digit t = []")
  case False
  then show ?thesis by (simp add: parseFloat_def Let_def num_not_NaN)
next
  case True
  then have d: "dropWhile is_digit t = t"
    by (metis append_Nil takeWhile_dropWhile_id)
  show ?thesis
  proof (cases t)
    case Nil
    then show ?thesis by (simp add: parseFloat_def)
  next
    case (Cons c r)
    with True d show ?thesis by (auto simp: parseFloat_def Let_def num_not_NaN split: if_splits)
  qed
qed

lemma takeWhile_digits_append: "list_all is_digit ds \<Longrightarrow> ds \<noteq> [] \<Longrightarrow> takeWhile is_digit (ds @ r) \<noteq> []"
  by (cases ds) simp_all

lemma parseFloat_literal_prefix: "parseFloat t \<noteq> NaN \<longleftrightarrow> literal_prefix t"
proof
  assume "parseFloat t \<noteq> NaN"
  then consider (ip) "takeWhile is_digit t \<noteq> []"
    | (fp) r where "t = CHR ''.'' # r" "takeWhile is_digit r \<noteq> []"
    unfolding parseFloat_NaN_iff by blast
  then show "literal_prefix t"
  proof cases
    case ip
    have "prefix (takeWhile is_digit t) t" by (rule takeWhile_is_prefix)
    moreover have "list_all is_digit (takeWhile is_digit t)"
      by (simp add: list_all_iff) (meson set_takeWhileD)
    ultimately show ?thesis unfolding literal_prefix_def decimal_literal_def
      using ip by (intro exI[of _ "takeWhile is_digit t"] conjI exI[of _ "[]"]) auto
  next
    case fp
    have "prefix (CHR ''.'' # takeWhile is_digit r) t"
      unfolding fp(1) by (simp add: takeWhile_is_prefix)
    moreover have "list_all is_digit (takeWhile is_digit r)"
      by (simp add: list_all_iff) (meson set_takeWhileD)
    ultimately show ?thesis unfolding literal_prefix_def decimal_literal_def
      using fp(2) by (intro exI[of _ "CHR ''.'' # takeWhile is_digit r"] conjI exI[of _ "[]"] exI[of _ "takeWhile is_digit r"]) auto
  qed
next
  assume "literal_prefix t"
  then obtain p ds fs r where t: "t = p @ r" and ds: "list_all is_digit ds" and fs: "list_all is_digit fs"
    and p: "(ds \<noteq> [] \<and> (p = ds \<or> p = ds @ CHR ''.'' # fs)) \<or> (fs \<noteq> [] \<and> p = CHR ''.'' # fs)"
    unfolding literal_prefix_def decimal_literal_def prefix_def by blast
  from p show "parseFloat t \<noteq> NaN"
  proof (elim disjE conjE)
    assume "ds \<noteq> []" "p = ds"
    then show ?thesis unfolding parseFloat_NaN_iff t using takeWhile_digits_append [OF ds] by simp
  next
    assume "ds \<noteq> []" "p = ds @ CHR ''.'' # fs"
    then show ?thesis unfolding parseFloat_NaN_iff t using takeWhile_digits_append [OF ds] by simp
  next
    assume "fs \<noteq> []" "p = CHR ''.'' # fs"
    then show ?thesis unfolding parseFloat_NaN_iff t using takeWhile_digits_append [OF fs] by simp
  qed
qed

lemma decimal_literal_prefix: "decimal_literal t \<Longrightarrow> literal_prefix t"
  unfolding literal_prefix_def by (rule exI [of _ t]) simp

text \<open>A decimal number has at most one dot.\<close>

lemma digits_no_dot: "list_all is_digit ds \<Longrightarrow> filter (\<lambda>c. c = CHR ''.'') ds = []"
  by (induction ds) (auto simp: dot_not_digit)

lemma decimal_literal_one_dot:
  assumes "decimal_literal p"
  shows "length (filter (\<lambda>c. c = CHR ''.'') p) \<le> 1"
proof -
  from assms obtain ds fs where ds: "list_all is_digit ds" and fs: "list_all is_digit fs"
    and p: "p = ds \<or> p = ds @ CHR ''.'' # fs \<or> p = CHR ''.'' # fs"
    unfolding decimal_literal_def by blast
  from p show ?thesis
    by (elim disjE) (simp_all add: digits_no_dot [OF ds] digits_no_dot [OF fs])
qed

lemma takeWhile_Nil_iff: "takeWhile P xs = [] \<longleftrightarrow> xs = [] \<or> \<not> P (hd xs)"
  by (cases xs) simp_all

lemma parsePrice_parseFloat:
  "parsePrice s = (if parseFloat (spec_stripped s) = NaN then None
                   else Some (parseFloat (spec_stripped s)))"
proof (cases "s = []")
  case True
  then show ?thesis by (simp add: parsePrice_def spec_stripped_def parseFloat_def)
next
  case False
  then show ?thesis by (simp add: parsePrice_def cleaned_stripped Let_def)
qed

lemma parsePrice_None_shape:
  "parsePrice s = None \<longleftrightarrow>
     spec_stripped s = [] \<or>
     (\<exists>r. spec_stripped s = CHR ''.'' # r \<and> (r = [] \<or> hd r = CHR ''.''))"
proof -
  define t where "t = spec_stripped s"
  have c: "\<And>c. c \<in> set t \<Longrightarrow> is_digit c \<or> c = CHR ''.''"
    unfolding t_def by (rule stripped_chars)
  have n: "parsePrice s = None \<longleftrightarrow> parseFloat t = NaN"
    by (simp add: parsePrice_parseFloat t_def)
  show ?thesis unfolding n t_def [symmetric]
  proof (cases t)
    case Nil
    then show "parseFloat t = NaN \<longleftrightarrow> t = [] \<or> (\<exists>r. t = CHR ''.'' # r \<and> (r = [] \<or> hd r = CHR ''.''))"
      by (simp add: parseFloat_def)
  next
    case (Cons a r)
    show "parseFloat t = NaN \<longleftrightarrow> t = [] \<or> (\<exists>r. t = CHR ''.'' # r \<and> (r = [] \<or> hd r = CHR ''.''))"
    proof (cases "is_digit a")
      case True
      then have "a \<noteq> CHR ''.''" using dot_not_digit by auto
      with True Cons parseFloat_NaN_iff [of t] show ?thesis by simp
    next
      case False
      with c [of a] Cons have a: "a = CHR ''.''" by simp
      have "r \<noteq> [] \<Longrightarrow> is_digit (hd r) \<or> hd r = CHR ''.''"
        using c [of "hd r"] Cons by (cases r) simp_all
      then have "takeWhile is_digit r = [] \<longleftrightarrow> r = [] \<or> hd r = CHR ''.''"
        unfolding takeWhile_Nil_iff using dot_not_digit by auto
      with parseFloat_NaN_iff [of t] Cons a dot_not_digit show ?thesis by auto
    qed
  qed
qed

lemma parsePrice_1234: "parsePrice ''1,234 JOD'' = Some (num 1234)"
  by (simp add: parsePrice_def cleaned_def parseFloat_def is_digit_def digits_val_def digit_val_def
      num_not_NaN)

lemma parsePrice_reads_prefix: "parsePrice ''1.200.500 JOD'' = Some (num (6 / 5))"
  by (simp add: parsePrice_def cleaned_def parseFloat_def is_digit_def digits_val_def digit_val_def
      num_not_NaN)

lemma stripped_1234: "spec_stripped ''1,234 JOD'' = ''1234''"
  by (simp add: spec_stripped_def)

lemma decimal_literal_1234: "decimal_literal ''1234''"
  unfolding decimal_literal_def
  by (intro exI [of _ "''1234''"] exI [of _ "[]"]) (simp add: is_digit_def)

text \<open>
  C3, as the code has it. \<open>parsePrice s\<close> is absent exactly when no leading part of the string
  left of \<open>s\<close> after deleting every character that is not a digit or a dot is a decimal
  number: when that string is empty, or begins with a dot that no digit follows. A string
  that is a decimal number as a whole has a price; so has one that only begins with a decimal
  number. The price is the number nearest to the value of the longest such leading part. The
  empty string and \<open>-\<close> give no price, \<open>1,234 JOD\<close> gives 1234.
\<close>

theorem parsePrice_none_iff:
  "(parsePrice s = None \<longleftrightarrow> \<not> literal_prefix (spec_stripped s)) \<and>
   (parsePrice s = None \<longleftrightarrow>
      spec_stripped s = [] \<or>
      (\<exists>r. spec_stripped s = CHR ''.'' # r \<and> (r = [] \<or> hd r = CHR ''.''))) \<and>
   (decimal_literal (spec_stripped s) \<longrightarrow> parsePrice s \<noteq> None) \<and>
   (parsePrice s = (if parseFloat (spec_stripped s) = NaN then None
                    else Some (parseFloat (spec_stripped s)))) \<and>
   parsePrice '''' = None \<and> parsePrice ''-'' = None \<and>
   parsePrice ''1,234 JOD'' = Some (num 1234) \<and> num_val (num 1234) = 1234"
proof -
  have a: "parsePrice s = None \<longleftrightarrow> \<not> literal_prefix (spec_stripped s)"
    using parseFloat_literal_prefix [of "spec_stripped s"] by (auto simp: parsePrice_parseFloat)
  have b: "decimal_literal (spec_stripped s) \<longrightarrow> parsePrice s \<noteq> None"
    using a decimal_literal_prefix [of "spec_stripped s"] by simp
  have "round_double 1234 = Some 1234" by (simp add: round_double_numeral)
  then have v: "num_val (num 1234) = 1234" by (rule num_exact(3))
  have "parsePrice ''-'' = None"
    by (simp add: parsePrice_def cleaned_def parseFloat_def is_digit_def)
  moreover have "parsePrice '''' = None" by (simp add: parsePrice_def)
  ultimately show ?thesis
    using a b v parsePrice_None_shape [of s] parsePrice_parseFloat [of s] parsePrice_1234
    by (intro conjI) assumption+
qed

theorem parsePrice_none_iff_witness:
  "decimal_literal (spec_stripped ''1,234 JOD'') \<and> parsePrice ''1,234 JOD'' \<noteq> None"
  using parsePrice_none_iff [of "''1,234 JOD''", THEN conjunct2, THEN conjunct2, THEN conjunct1]
    decimal_literal_1234
  by (simp add: stripped_1234)

text \<open>
  The claim as the specification words it fails: of \<open>1.200.500 JOD\<close> the digits and dots are
  \<open>1.200.500\<close>, which is not a decimal number, and the price is not absent: it is 1.2, the
  value of \<open>1.200\<close>, the longest leading part that is one.
\<close>

theorem parsePrice_none_iff_counterexample:
  "\<not> (parsePrice ''1.200.500 JOD'' = None \<longleftrightarrow> \<not> decimal_literal (spec_stripped ''1.200.500 JOD'')) \<and>
   spec_stripped ''1.200.500 JOD'' = ''1.200.500'' \<and>
   parsePrice ''1.200.500 JOD'' = Some (num (6 / 5))"
proof -
  have s: "spec_stripped ''1.200.500 JOD'' = ''1.200.500''" by (simp add: spec_stripped_def)
  have "\<not> decimal_literal ''1.200.500''"
    using decimal_literal_one_dot [of "''1.200.500''"] by auto
  then show ?thesis using parsePrice_reads_prefix by (simp add: s)
qed

section \<open>Properties of the aggregation step\<close>

lemma floor_rat_numeral: "\<lfloor>(numeral a / numeral b :: rat)\<rfloor> = numeral a div numeral b"
  using floor_divide_of_int_eq [of "numeral a" "numeral b", where ?'a = rat] by simp

lemma has_price_iff: "has_price i \<longleftrightarrow> (\<exists>p. price i = Some p \<and> js_gt p (num 0))"
  by (cases "price i") (simp_all add: has_price_def)

lemma kept_filter:
  "filter has_price its = filter (\<lambda>i. \<exists>p. price i = Some p \<and> js_gt p (num 0)) its"
  by (rule filter_cong) (simp_all add: has_price_iff)

lemma prices_of_kept:
  "List.map_filter (\<lambda>p. p) (map price (filter has_price its)) = map (\<lambda>i. the (price i)) (filter has_price its)"
  by (induction its) (auto simp: List.map_filter_simps has_price_iff)

lemma kept_not_NaN: "NaN \<notin> set (map (\<lambda>i. the (price i)) (filter has_price its))"
  by (auto simp: has_price_iff js_gt_def js_lt_def)

lemma aggregate_unfold:
  "aggregate its =
     (let kept = filter has_price its; ps = map (\<lambda>i. the (price i)) kept in
      \<lparr> items = kept,
        minPrice = (if ps = [] then None else Some (Min (set ps))),
        maxPrice = (if ps = [] then None else Some (Max (set ps))),
        avgPrice = (if ps = [] then None
                    else Some (Math_round (num_div (fold (\<lambda>b a. num_add a b) ps (num 0))
                                                    (num (of_nat (length ps)))))),
        totalItems = length kept \<rparr>)"
proof (cases "filter has_price its = []")
  case True
  then show ?thesis by (simp add: aggregate_def Let_def List.map_filter_simps)
next
  case False
  then have "map (\<lambda>i. the (price i)) (filter has_price its) \<noteq> []" by simp
  from Math_min_Min [OF this kept_not_NaN] Math_max_Max [OF this kept_not_NaN] False
  show ?thesis by (simp add: aggregate_def Let_def prices_of_kept)
qed

text \<open>A number that is greater than zero is not the nearest to a rational below zero.\<close>

lemma num_nonpos:
  assumes "x \<le> 0"
  shows "\<not> js_gt (num x) (num 0)"
proof (cases "round_double x")
  case None
  with assms have "num x = NegInfinity" by (simp add: num_def)
  then show ?thesis
    using num_exact [OF round_double_0] by (simp add: js_gt_def js_lt_def less_number_def)
next
  case (Some y)
  have "y \<le> 0"
  proof (cases "x = 0")
    case True
    with Some show ?thesis by (simp add: round_double_def)
  next
    case False
    note c = round_double_cases [OF False]
    from c(3) Some have "y = sgn x * (of_int (round_half_even (\<bar>x\<bar> / 2 powi (max (ilog2 \<bar>x\<bar>) (- 1022) - 52))) *
        2 powi (max (ilog2 \<bar>x\<bar>) (- 1022) - 52))"
      by (simp split: if_splits)
    moreover have "sgn x = - 1" using assms False by simp
    moreover have "0 \<le> (of_int (round_half_even (\<bar>x\<bar> / 2 powi (max (ilog2 \<bar>x\<bar>) (- 1022) - 52))) :: rat) *
        2 powi (max (ilog2 \<bar>x\<bar>) (- 1022) - 52)"
      using c(1) by simp
    ultimately show ?thesis by simp
  qed
  moreover have "num_val (num x) = y" "num_rank (num x) = 1" using num_val_num [OF Some] by simp_all
  moreover have "num_val (num 0) = 0" "num_rank (num 0) = 1" using num_exact [OF round_double_0] by simp_all
  ultimately show ?thesis by (simp add: js_gt_def js_lt_def less_number_def)
qed

lemma num_int_pos: "js_gt (num (of_int k)) (num 0) \<Longrightarrow> 1 \<le> k"
proof (rule ccontr)
  assume "js_gt (num (of_int k)) (num 0)" "\<not> 1 \<le> k"
  then have "(of_int k :: rat) \<le> 0" by simp
  from num_nonpos [OF this] \<open>js_gt (num (of_int k)) (num 0)\<close> show False by simp
qed

lemma kept_int_pos:
  assumes "map (\<lambda>i. the (price i)) (filter has_price its) = map (\<lambda>k. num (of_int k)) ks"
  shows "\<forall>k\<in>set ks. 1 \<le> k"
proof
  fix k assume "k \<in> set ks"
  then have "num (of_int k) \<in> set (map (\<lambda>i. the (price i)) (filter has_price its))"
    unfolding assms by simp
  then have "js_gt (num (of_int k)) (num 0)" by (auto simp: has_price_iff)
  then show "1 \<le> k" by (rule num_int_pos)
qed

subsection \<open>Integer prices\<close>

lemma sum_list_nonneg_int: "\<forall>k\<in>set ks. (0::int) \<le> k \<Longrightarrow> 0 \<le> sum_list ks"
  by (induction ks) simp_all

lemma elem_le_sum_list: "\<forall>k\<in>set ks. (0::int) \<le> k \<Longrightarrow> k \<in> set ks \<Longrightarrow> k \<le> sum_list ks"
proof (induction ks)
  case Nil
  then show ?case by simp
next
  case (Cons a ks)
  have "0 \<le> sum_list ks" using Cons.prems(1) by (intro sum_list_nonneg_int) simp
  with Cons show ?case by auto
qed

lemma length_le_sum_list: "\<forall>k\<in>set ks. (1::int) \<le> k \<Longrightarrow> int (length ks) \<le> sum_list ks"
  by (induction ks) auto

lemma sum_list_lower: "\<forall>k\<in>set ks. a \<le> k \<Longrightarrow> int (length ks) * a \<le> sum_list ks"
  by (induction ks) (auto simp: algebra_simps)

lemma sum_list_upper: "\<forall>k\<in>set ks. k \<le> b \<Longrightarrow> sum_list ks \<le> int (length ks) * b"
  by (induction ks) (auto simp: algebra_simps)

lemma fold_add_int:
  assumes "\<forall>k\<in>set ks. 0 \<le> k" "0 \<le> a" "a + sum_list ks \<le> 2 ^ 53"
  shows "fold (\<lambda>b a. num_add a b) (map (\<lambda>k. num (of_int k)) ks) (num (of_int a)) =
         num (of_int (a + sum_list ks))"
  using assms
proof (induction ks arbitrary: a)
  case Nil
  then show ?case by simp
next
  case (Cons k ks)
  have s: "0 \<le> sum_list ks" using Cons.prems(1) by (intro sum_list_nonneg_int) simp
  have k: "0 \<le> k" using Cons.prems(1) by simp
  have "\<bar>a\<bar> \<le> 2 ^ 53" "\<bar>k\<bar> \<le> 2 ^ 53" using Cons.prems(2,3) s k by simp_all
  then have "round_double (of_int a) = Some (of_int a)" "round_double (of_int k) = Some (of_int k)"
    by (simp_all add: round_double_int)
  then have "num_add (num (of_int a)) (num (of_int k)) = num (of_int a + of_int k)"
    by (rule num_arith_exact(1))
  then have st: "num_add (num (of_int a)) (num (of_int k)) = num (of_int (a + k))" by simp
  have "fold (\<lambda>b a. num_add a b) (map (\<lambda>k. num (of_int k)) ks) (num (of_int (a + k))) =
        num (of_int (a + k + sum_list ks))"
    using Cons.prems k by (intro Cons.IH) simp_all
  then show ?case by (simp add: st add.assoc)
qed

lemma Min_num_int:
  assumes "ks \<noteq> []" "\<forall>k\<in>set ks. \<bar>k\<bar> \<le> 2 ^ 53"
  shows "Min (set (map (\<lambda>k. num (of_int k)) ks)) = num (of_int (Min (set ks)))"
proof (rule Min_eqI)
  show "finite (set (map (\<lambda>k. num (of_int k)) ks))" by simp
  have m: "Min (set ks) \<in> set ks" using assms(1) by simp
  then show "num (of_int (Min (set ks))) \<in> set (map (\<lambda>k. num (of_int k)) ks)" by simp
  fix y assume "y \<in> set (map (\<lambda>k. num (of_int k)) ks)"
  then obtain k where k: "k \<in> set ks" "y = num (of_int k)" by auto
  have "round_double (of_int (Min (set ks)) :: rat) = Some (of_int (Min (set ks)))"
    "round_double (of_int k :: rat) = Some (of_int k)"
    using assms(2) m k(1) by (simp_all add: round_double_int)
  from num_less_exact(2) [OF this] k show "num (of_int (Min (set ks))) \<le> y" by simp
qed

lemma Max_num_int:
  assumes "ks \<noteq> []" "\<forall>k\<in>set ks. \<bar>k\<bar> \<le> 2 ^ 53"
  shows "Max (set (map (\<lambda>k. num (of_int k)) ks)) = num (of_int (Max (set ks)))"
proof (rule Max_eqI)
  show "finite (set (map (\<lambda>k. num (of_int k)) ks))" by simp
  have m: "Max (set ks) \<in> set ks" using assms(1) by simp
  then show "num (of_int (Max (set ks))) \<in> set (map (\<lambda>k. num (of_int k)) ks)" by simp
  fix y assume "y \<in> set (map (\<lambda>k. num (of_int k)) ks)"
  then obtain k where k: "k \<in> set ks" "y = num (of_int k)" by auto
  have "round_double (of_int k :: rat) = Some (of_int k)"
    "round_double (of_int (Max (set ks)) :: rat) = Some (of_int (Max (set ks)))"
    using assms(2) m k(1) by (simp_all add: round_double_int)
  from num_less_exact(2) [OF this] k show "y \<le> num (of_int (Max (set ks)))" by simp
qed

text \<open>The mean of integer prices whose sum is below \<open>2^52\<close>: every partial sum is exact,
  and the rounded quotient is too near to the mean for \<^verbatim>\<open>Math.round\<close> to tell them apart.\<close>

lemma int_mean:
  assumes ne: "ks \<noteq> []" and pos: "\<forall>k\<in>set ks. 1 \<le> k" and s: "sum_list ks < 2 ^ 52"
  shows "Math_round (num_div (fold (\<lambda>b a. num_add a b) (map (\<lambda>k. num (of_int k)) ks) (num 0))
                             (num (of_nat (length (map (\<lambda>k. num (of_int k)) ks))))) =
         num (of_int \<lfloor>(of_int (sum_list ks) / of_nat (length ks) :: rat) + 1 / 2\<rfloor>)"
proof -
  define S where "S = sum_list ks"
  define n where "n = int (length ks)"
  have n1: "1 \<le> n" using ne unfolding n_def by (cases ks) simp_all
  have nS: "n \<le> S" unfolding n_def S_def using pos by (rule length_le_sum_list)
  have S52: "S < 2 ^ 52" using s by (simp add: S_def)
  have nonneg: "\<forall>k\<in>set ks. 0 \<le> k" using pos by auto
  have "fold (\<lambda>b a. num_add a b) (map (\<lambda>k. num (of_int k)) ks) (num (of_int 0)) =
        num (of_int (0 + sum_list ks))"
    using nonneg s by (intro fold_add_int) simp_all
  then have f: "fold (\<lambda>b a. num_add a b) (map (\<lambda>k. num (of_int k)) ks) (num 0) = num (of_int S)"
    by (simp add: S_def)
  have l: "num (of_nat (length (map (\<lambda>k. num (of_int k)) ks))) = num (of_int n)"
    by (simp add: n_def)
  have "\<bar>S\<bar> \<le> 2 ^ 53" "\<bar>n\<bar> \<le> 2 ^ 53" using n1 nS S52 by simp_all
  then have "round_double (of_int S) = Some (of_int S)" "round_double (of_int n) = Some (of_int n)"
    by (simp_all add: round_double_int)
  moreover have "(of_int n :: rat) \<noteq> 0" using n1 by simp
  ultimately have d: "num_div (num (of_int S)) (num (of_int n)) = num (of_int S / of_int n)"
    by (intro num_arith_exact(4))
  from mean_round_floor [OF n1 nS S52] obtain y where
    y: "round_double (of_int S / of_int n) = Some y"
       "\<lfloor>y + 1 / 2\<rfloor> = \<lfloor>(of_int S / of_int n :: rat) + 1 / 2\<rfloor>" by blast
  have "Math_round (num (of_int S / of_int n)) = num (of_int \<lfloor>y + 1 / 2\<rfloor>)"
    by (simp add: num_Finite [OF y(1)] double_value_Double [OF y(1)])
  then show ?thesis unfolding f l d y(2) by (simp add: S_def n_def)
qed

lemma int_mean_between:
  assumes ne: "ks \<noteq> []"
  shows "Min (set ks) \<le> \<lfloor>(of_int (sum_list ks) / of_nat (length ks) :: rat) + 1 / 2\<rfloor>"
    and "\<lfloor>(of_int (sum_list ks) / of_nat (length ks) :: rat) + 1 / 2\<rfloor> \<le> Max (set ks)"
proof -
  define n :: rat where "n = of_nat (length ks)"
  have n0: "0 < n" using ne by (simp add: n_def)
  have "int (length ks) * Min (set ks) \<le> sum_list ks" by (rule sum_list_lower) simp
  then have "(of_int (int (length ks) * Min (set ks)) :: rat) \<le> of_int (sum_list ks)"
    by (simp only: of_int_le_iff)
  then have "of_int (Min (set ks)) * n \<le> of_int (sum_list ks)" by (simp add: n_def mult.commute)
  then have "of_int (Min (set ks)) \<le> of_int (sum_list ks) / n" using n0 by (simp add: pos_le_divide_eq)
  then have "(of_int (Min (set ks)) :: rat) \<le> of_int (sum_list ks) / n + 1 / 2" by simp
  then show "Min (set ks) \<le> \<lfloor>(of_int (sum_list ks) / of_nat (length ks) :: rat) + 1 / 2\<rfloor>"
    unfolding n_def by (simp only: le_floor_iff)
  have "sum_list ks \<le> int (length ks) * Max (set ks)" by (rule sum_list_upper) simp
  then have "(of_int (sum_list ks) :: rat) \<le> of_int (int (length ks) * Max (set ks))"
    by (simp only: of_int_le_iff)
  then have "of_int (sum_list ks) \<le> of_int (Max (set ks)) * n" by (simp add: n_def mult.commute)
  then have "of_int (sum_list ks) / n \<le> of_int (Max (set ks))" using n0 by (simp add: pos_divide_le_eq)
  then have "of_int (sum_list ks) / n + 1 / 2 < of_int (Max (set ks)) + 1" by simp
  then have "\<lfloor>of_int (sum_list ks) / n + 1 / 2\<rfloor> < Max (set ks) + 1"
    by (simp only: floor_less_iff of_int_add of_int_1)
  then show "\<lfloor>(of_int (sum_list ks) / of_nat (length ks) :: rat) + 1 / 2\<rfloor> \<le> Max (set ks)"
    unfolding n_def by simp
qed

lemma num_numeral_evals:
  "js_gt (num 10) (num 0)" "js_gt (num 20) (num 0)" "js_gt (num 30) (num 0)" "\<not> js_gt (num 0) (num 0)"
  by (simp_all add: num_less_exact round_double_numeral round_double_0)

text \<open>
  C1, as the code has it. The aggregation step keeps exactly the items whose price is present
  and greater than zero, in their order; \<open>totalItems\<close> is their number; with none kept the
  three price fields are absent; otherwise \<open>minPrice\<close> and \<open>maxPrice\<close> are the least and the
  greatest kept price, and \<open>avgPrice\<close> is \<^verbatim>\<open>Math.round\<close> of the quotient, in the arithmetic of
  numbers, of the sum accumulated in that arithmetic and the count. When the kept prices are
  integers whose sum is below \<open>2^52\<close>, that is their arithmetic mean rounded to the nearest
  integer, a half going up. For the kept prices \<open>[10, 20, 30]\<close> the result is 10, 30 and 20.
\<close>

theorem aggregate_statistics:
  "(let kept = filter (\<lambda>i. \<exists>p. price i = Some p \<and> js_gt p (num 0)) its;
        ps = map (\<lambda>i. the (price i)) kept;
        r = aggregate its
    in items r = kept \<and> totalItems r = length kept \<and>
       (length kept = 0 \<longrightarrow> minPrice r = None \<and> maxPrice r = None \<and> avgPrice r = None) \<and>
       (length kept \<noteq> 0 \<longrightarrow>
          minPrice r = Some (Min (set ps)) \<and> maxPrice r = Some (Max (set ps)) \<and>
          avgPrice r = Some (Math_round (num_div (fold (\<lambda>b a. num_add a b) ps (num 0))
                                                  (num (of_nat (length ps)))))) \<and>
       (\<forall>ks. ks \<noteq> [] \<and> ps = map (\<lambda>k. num (of_int k)) ks \<and> sum_list ks < 2 ^ 52 \<longrightarrow>
          minPrice r = Some (num (of_int (Min (set ks)))) \<and>
          maxPrice r = Some (num (of_int (Max (set ks)))) \<and>
          avgPrice r =
            Some (num (of_int \<lfloor>(of_int (sum_list ks) / of_nat (length ks) :: rat) + 1 / 2\<rfloor>))) \<and>
       (ps = [num 10, num 20, num 30] \<longrightarrow>
          minPrice r = Some (num 10) \<and> maxPrice r = Some (num 30) \<and> avgPrice r = Some (num 20)))"
proof -
  define kept where "kept = filter has_price its"
  define ps where "ps = map (\<lambda>i. the (price i)) kept"
  define r where "r = aggregate its"
  have r: "items r = kept" "totalItems r = length kept"
    "minPrice r = (if ps = [] then None else Some (Min (set ps)))"
    "maxPrice r = (if ps = [] then None else Some (Max (set ps)))"
    "avgPrice r = (if ps = [] then None
       else Some (Math_round (num_div (fold (\<lambda>b a. num_add a b) ps (num 0)) (num (of_nat (length ps))))))"
    unfolding r_def aggregate_unfold Let_def kept_def ps_def by simp_all
  have e: "ps = [] \<longleftrightarrow> length kept = 0" by (simp add: ps_def)
  have int: "minPrice r = Some (num (of_int (Min (set ks)))) \<and>
          maxPrice r = Some (num (of_int (Max (set ks)))) \<and>
          avgPrice r =
            Some (num (of_int \<lfloor>(of_int (sum_list ks) / of_nat (length ks) :: rat) + 1 / 2\<rfloor>))"
    if ks: "ks \<noteq> []" "ps = map (\<lambda>k. num (of_int k)) ks" "sum_list ks < 2 ^ 52" for ks
  proof -
    have pos: "\<forall>k\<in>set ks. 1 \<le> k"
      using ks(2) unfolding ps_def kept_def by (rule kept_int_pos)
    then have nonneg: "\<forall>k\<in>set ks. 0 \<le> k" by auto
    have b: "\<forall>k\<in>set ks. \<bar>k\<bar> \<le> 2 ^ 53"
    proof
      fix k assume k: "k \<in> set ks"
      with elem_le_sum_list [OF nonneg] have "k \<le> sum_list ks" by simp
      with ks(3) nonneg k show "\<bar>k\<bar> \<le> 2 ^ 53" by auto
    qed
    have n: "ps \<noteq> []" using ks(1,2) by simp
    show ?thesis
      using n Min_num_int [OF ks(1) b] Max_num_int [OF ks(1) b] int_mean [OF ks(1) pos ks(3)]
      unfolding r(3-5) ks(2) by simp
  qed
  have ex: "minPrice r = Some (num 10) \<and> maxPrice r = Some (num 30) \<and> avgPrice r = Some (num 20)"
    if "ps = [num 10, num 20, num 30]"
  proof -
    have "ps = map (\<lambda>k. num (of_int k)) [10, 20, 30]" using that by simp
    from int [OF _ this] show ?thesis by (simp add: floor_rat_numeral)
  qed
  show ?thesis
    unfolding Let_def kept_filter [symmetric] kept_def [symmetric] ps_def [symmetric] r_def [symmetric]
    using r e int ex by simp
qed

theorem aggregate_statistics_witness:
  "(let its = [example_item ''a'' (Some (num 10)), example_item ''b'' None,
               example_item ''c'' (Some (num 20)), example_item ''d'' (Some (num 0)),
               example_item ''e'' (Some (num 30))];
        r = aggregate its
    in map link (items r) = [''a'', ''c'', ''e''] \<and> totalItems r = 3 \<and>
       map (\<lambda>i. the (price i)) (filter (\<lambda>i. \<exists>p. price i = Some p \<and> js_gt p (num 0)) its) =
         map (\<lambda>k. num (of_int k)) [10, 20, 30] \<and>
       sum_list [10, 20, 30] < (2 ^ 52 :: int) \<and>
       minPrice r = Some (num 10) \<and> maxPrice r = Some (num 30) \<and> avgPrice r = Some (num 20))"
proof -
  let ?its = "[example_item ''a'' (Some (num 10)), example_item ''b'' None,
      example_item ''c'' (Some (num 20)), example_item ''d'' (Some (num 0)),
      example_item ''e'' (Some (num 30))]"
  note T = aggregate_statistics [of ?its, unfolded Let_def]
  note T1 = T [THEN conjunct1]
  note T2 = T [THEN conjunct2, THEN conjunct1]
  note T5 = T [THEN conjunct2, THEN conjunct2, THEN conjunct2, THEN conjunct2, THEN conjunct1,
      rule_format, of "[10, 20, 30]"]
  show ?thesis using T1 T2 T5
    by (simp add: example_item_def Let_def num_numeral_evals floor_rat_numeral)
qed

lemma round_double_tie: "round_double 9007199254740993 = Some 9007199254740992"
proof -
  have "round_half_even (9007199254740993 / 2) = 4503599627370496"
    by (simp add: round_half_even_def Let_def floor_rat_numeral)
  then show ?thesis
    using round_double_at [of 9007199254740993 53] by (simp add: Let_def)
qed

lemma parsePrice_big: "parsePrice ''9007199254740992 JOD'' = Some (num 9007199254740992)"
  by (simp add: parsePrice_def cleaned_def parseFloat_def is_digit_def digits_val_def digit_val_def
      num_not_NaN)

lemma parsePrice_1: "parsePrice ''1 JOD'' = Some (num 1)"
  by (simp add: parsePrice_def cleaned_def parseFloat_def is_digit_def digits_val_def digit_val_def
      num_not_NaN)

text \<open>
  C1 as stated fails: the sum and the quotient are rounded. Of two listings priced
  \<open>9007199254740992 JOD\<close> and \<open>1 JOD\<close> both prices are kept and are these integers; their
  mean is 4503599627370496.5, which rounded with the half going up is 4503599627370497;
  \<open>avgPrice\<close> is 4503599627370496, since the sum of the two prices rounds to
  9007199254740992.
\<close>

theorem aggregate_mean_counterexample:
  "(let its = [example_item ''a'' (parsePrice ''9007199254740992 JOD''),
               example_item ''b'' (parsePrice ''1 JOD'')];
        r = aggregate its
    in map (\<lambda>i. the (price i)) (items r) = [num 9007199254740992, num 1] \<and>
       num_val (num 9007199254740992) = 9007199254740992 \<and> num_val (num 1) = 1 \<and>
       avgPrice r = Some (num 4503599627370496) \<and>
       num_val (num 4503599627370496) = 4503599627370496 \<and>
       \<lfloor>((9007199254740992 + 1) / 2 :: rat) + 1 / 2\<rfloor> = 4503599627370497 \<and>
       avgPrice r \<noteq> Some (num (of_int \<lfloor>((9007199254740992 + 1) / 2 :: rat) + 1 / 2\<rfloor>)))"
proof -
  have g: "js_gt (num 9007199254740992) (num 0)" "js_gt (num 1) (num 0)"
    by (simp_all add: num_less_exact round_double_numeral round_double_0 round_double_1)
  have v: "num_val (num 9007199254740992) = 9007199254740992" "num_val (num 1) = 1"
    "num_val (num 4503599627370496) = 4503599627370496"
    by (simp_all add: num_exact round_double_numeral round_double_1)
  have a: "num_add (num 0) (num 9007199254740992) = num 9007199254740992"
    by (simp add: num_arith_exact round_double_numeral round_double_0)
  have "num_add (num 9007199254740992) (num 1) = num 9007199254740993"
    by (simp add: num_arith_exact round_double_numeral round_double_1)
  also have "\<dots> = num 9007199254740992"
    by (simp add: num_def round_double_tie round_double_numeral)
  finally have b: "num_add (num 9007199254740992) (num 1) = num 9007199254740992" .
  have c: "num_div (num 9007199254740992) (num 2) = num 4503599627370496"
    by (simp add: num_arith_exact round_double_numeral)
  have d: "Math_round (num 4503599627370496) = num 4503599627370496"
    using Math_round_int [of 4503599627370496] by simp
  have f: "\<lfloor>((9007199254740992 + 1) / 2 :: rat) + 1 / 2\<rfloor> = 4503599627370497"
    by (simp add: floor_rat_numeral)
  have n: "num 4503599627370496 \<noteq> num 4503599627370497"
    by (simp add: num_less_exact round_double_numeral)
  show ?thesis
    unfolding parsePrice_big parsePrice_1 Let_def f
    using v n
    by (simp add: aggregate_unfold has_price_def example_item_def g a b c d)
qed

text \<open>
  C2, as the code has it. The three price fields are all absent exactly when \<open>totalItems\<close> is
  0, and all present otherwise. When present, \<open>minPrice \<le> maxPrice\<close>; and when the kept prices
  are integers whose sum is below \<open>2^52\<close>, \<open>minPrice \<le> avgPrice \<le> maxPrice\<close>. The average is
  rounded to an integer and the other two are not, so with a fractional price it can leave
  the interval between them.
\<close>

theorem aggregate_price_bounds:
  "(let r = aggregate its in
      ((minPrice r = None \<and> maxPrice r = None \<and> avgPrice r = None) \<longleftrightarrow> totalItems r = 0) \<and>
      (totalItems r \<noteq> 0 \<longrightarrow>
         (\<exists>lo av hi. minPrice r = Some lo \<and> avgPrice r = Some av \<and> maxPrice r = Some hi \<and>
            js_le lo hi \<and>
            (\<forall>ks. map (\<lambda>i. the (price i)) (items r) = map (\<lambda>k. num (of_int k)) ks \<and>
                  sum_list ks < 2 ^ 52 \<longrightarrow> js_le lo av \<and> js_le av hi))))"
proof -
  let ?ps = "map (\<lambda>i. the (price i)) (filter has_price its)"
  define r where "r = aggregate its"
  show ?thesis
  proof (cases "?ps = []")
    case True
    then show ?thesis by (simp add: aggregate_unfold Let_def)
  next
    case False
    define av where "av = Math_round (num_div (fold (\<lambda>b a. num_add a b) ?ps (num 0))
        (num (of_nat (length ?ps))))"
    have f: "items r = filter has_price its" "minPrice r = Some (Min (set ?ps))"
      "maxPrice r = Some (Max (set ?ps))" "avgPrice r = Some av"
      "totalItems r = length (filter has_price its)"
      using False unfolding r_def aggregate_unfold Let_def av_def by simp_all
    have tot: "totalItems r \<noteq> 0" using False unfolding f by (auto simp: filter_empty_conv)
    have ne: "set ?ps \<noteq> {}" using False by (simp only: set_empty not_False_eq_True)
    have "Min (set ?ps) \<in> set ?ps" "Max (set ?ps) \<in> set ?ps" using ne by simp_all
    with kept_not_NaN [of its] have nn: "Min (set ?ps) \<noteq> NaN" "Max (set ?ps) \<noteq> NaN" by metis+
    have "Min (set ?ps) \<le> Max (set ?ps)" using ne by simp
    with nn have o: "js_le (Min (set ?ps)) (Max (set ?ps))" by (simp add: js_le_def)
    have i: "js_le (Min (set ?ps)) av \<and> js_le av (Max (set ?ps))"
      if ks: "?ps = map (\<lambda>k. num (of_int k)) ks" "sum_list ks < 2 ^ 52" for ks
    proof -
      have k0: "ks \<noteq> []" using False ks(1) by auto
      have pos: "\<forall>k\<in>set ks. 1 \<le> k" using ks(1) by (rule kept_int_pos)
      then have nonneg: "\<forall>k\<in>set ks. 0 \<le> k" by auto
      have b: "\<forall>k\<in>set ks. \<bar>k\<bar> \<le> 2 ^ 53"
      proof
        fix k assume k: "k \<in> set ks"
        with elem_le_sum_list [OF nonneg] have "k \<le> sum_list ks" by simp
        with ks(2) nonneg k show "\<bar>k\<bar> \<le> 2 ^ 53" by auto
      qed
      define m where "m = \<lfloor>(of_int (sum_list ks) / of_nat (length ks) :: rat) + 1 / 2\<rfloor>"
      note bt = int_mean_between [OF k0, folded m_def]
      have mn: "Min (set ks) \<in> set ks" and mx: "Max (set ks) \<in> set ks" using k0 by simp_all
      have b3: "\<bar>Min (set ks)\<bar> \<le> 2 ^ 53" "\<bar>Max (set ks)\<bar> \<le> 2 ^ 53" using b mn mx by blast+
      have "0 \<le> Min (set ks)" using nonneg mn by blast
      with bt b3 have bm: "\<bar>m\<bar> \<le> 2 ^ 53" by simp
      have e: "av = num (of_int m)" "Min (set ?ps) = num (of_int (Min (set ks)))"
        "Max (set ?ps) = num (of_int (Max (set ks)))"
        unfolding av_def m_def ks(1)
        using int_mean [OF k0 pos ks(2)] Min_num_int [OF k0 b] Max_num_int [OF k0 b] by simp_all
      have rd: "round_double (of_int m :: rat) = Some (of_int m)"
        "round_double (of_int (Min (set ks)) :: rat) = Some (of_int (Min (set ks)))"
        "round_double (of_int (Max (set ks)) :: rat) = Some (of_int (Max (set ks)))"
        using bm b3 by (simp_all add: round_double_int)
      show ?thesis unfolding e
        using bt by (simp add: num_less_exact(6) [OF rd(2) rd(1)] num_less_exact(6) [OF rd(1) rd(3)])
    qed
    have "\<exists>lo av hi. minPrice r = Some lo \<and> avgPrice r = Some av \<and> maxPrice r = Some hi \<and>
            js_le lo hi \<and>
            (\<forall>ks. map (\<lambda>i. the (price i)) (items r) = map (\<lambda>k. num (of_int k)) ks \<and>
                  sum_list ks < 2 ^ 52 \<longrightarrow> js_le lo av \<and> js_le av hi)"
      unfolding f using o i by blast
    moreover have "(minPrice r = None \<and> maxPrice r = None \<and> avgPrice r = None) \<longleftrightarrow> totalItems r = 0"
      using tot by (simp add: f(2))
    ultimately show ?thesis unfolding Let_def r_def by blast
  qed
qed

theorem aggregate_price_bounds_witness:
  "(let r = aggregate [example_item ''a'' (Some (num 10)), example_item ''b'' (Some (num 20)),
                       example_item ''c'' (Some (num 30))]
    in totalItems r = 3 \<and>
       map (\<lambda>i. the (price i)) (items r) = map (\<lambda>k. num (of_int k)) [10, 20, 30] \<and>
       sum_list [10, 20, 30] < (2 ^ 52 :: int) \<and>
       minPrice r = Some (num 10) \<and> avgPrice r = Some (num 20) \<and> maxPrice r = Some (num 30) \<and>
       js_le (num 10) (num 20) \<and> js_le (num 20) (num 30))"
proof -
  let ?its = "[example_item ''a'' (Some (num 10)), example_item ''b'' (Some (num 20)),
               example_item ''c'' (Some (num 30))]"
  have k: "filter has_price ?its = ?its"
    by (simp add: has_price_def example_item_def num_numeral_evals)
  have ps: "map (\<lambda>i. the (price i)) ?its = map (\<lambda>k. num (of_int k)) [10, 20, 30]"
    by (simp add: example_item_def)
  have pos: "\<forall>k\<in>set [10, 20, 30]. (1::int) \<le> k" by simp
  have b: "\<forall>k\<in>set [10, 20, 30]. \<bar>k :: int\<bar> \<le> 2 ^ 53" by simp
  have s: "sum_list [10, 20, 30] < (2 ^ 52 :: int)" by simp
  have r: "totalItems (aggregate ?its) = 3" "items (aggregate ?its) = ?its"
    "minPrice (aggregate ?its) = Some (num 10)" "maxPrice (aggregate ?its) = Some (num 30)"
    "avgPrice (aggregate ?its) = Some (num 20)"
    unfolding aggregate_unfold Let_def k ps
    using Min_num_int [OF _ b] Max_num_int [OF _ b] int_mean [OF _ pos s]
    by (simp_all add: floor_rat_numeral)
  from aggregate_price_bounds [of ?its, unfolded Let_def, THEN conjunct2, rule_format]
  obtain lo av hi where h: "minPrice (aggregate ?its) = Some lo" "avgPrice (aggregate ?its) = Some av"
    "maxPrice (aggregate ?its) = Some hi"
    "\<forall>ks. map (\<lambda>i. the (price i)) (items (aggregate ?its)) = map (\<lambda>k. num (of_int k)) ks \<and>
                  sum_list ks < 2 ^ 52 \<longrightarrow> js_le lo av \<and> js_le av hi"
    unfolding r(1) by auto
  from h(1-3) have "lo = num 10" "av = num 20" "hi = num 30" unfolding r by simp_all
  with h(4) [rule_format, of "[10, 20, 30]"] have "js_le (num 10) (num 20) \<and> js_le (num 20) (num 30)"
    unfolding r(2) ps using s by simp
  then show ?thesis unfolding Let_def using r s ps by simp
qed

lemma parsePrice_10_5: "parsePrice ''10.5 JOD'' = Some (num (21 / 2))"
  by (simp add: parsePrice_def cleaned_def parseFloat_def is_digit_def digits_val_def digit_val_def
      num_not_NaN)

lemma round_double_10_5: "round_double (21 / 2) = Some (21 / 2)"
  by (rule round_double_exact [of 21 "- 1"]) (simp_all add: power_int_minus)

text \<open>
  C2 as stated fails: a single listing priced \<open>10.5 JOD\<close> has \<open>minPrice = maxPrice = 10.5\<close>
  and \<open>avgPrice = 11\<close>.
\<close>

theorem aggregate_price_order_counterexample:
  "(let r = aggregate [example_item ''a'' (parsePrice ''10.5 JOD'')]
    in minPrice r = Some (num (21 / 2)) \<and> avgPrice r = Some (num 11) \<and>
       maxPrice r = Some (num (21 / 2)) \<and>
       num_val (num (21 / 2)) = 21 / 2 \<and> num_val (num 11) = 11 \<and>
       \<not> js_le (num 11) (num (21 / 2)))"
proof -
  have g: "js_gt (num (21 / 2)) (num 0)"
    by (simp add: num_less_exact round_double_10_5 round_double_0)
  have a: "num_add (num 0) (num (21 / 2)) = num (21 / 2)"
    by (simp add: num_arith_exact round_double_10_5 round_double_0)
  have d: "num_div (num (21 / 2)) (num 1) = num (21 / 2)"
    by (simp add: num_arith_exact round_double_10_5 round_double_1)
  have m: "Math_round (num (21 / 2)) = num 11"
    by (simp add: Math_round_exact round_double_10_5 floor_rat_numeral)
  have v: "num_val (num (21 / 2)) = 21 / 2" "num_val (num 11) = 11"
    by (simp_all add: num_exact round_double_10_5 round_double_numeral)
  have n: "\<not> js_le (num 11) (num (21 / 2))"
    by (simp add: num_less_exact round_double_10_5 round_double_numeral)
  show ?thesis
    unfolding parsePrice_10_5 Let_def
    using v n by (simp add: aggregate_unfold has_price_def example_item_def g a d m)
qed

section \<open>Properties of detectOutliers\<close>

lemma fold_insert_outliers:
  "fold (\<lambda>(l, p) outliers. if P p then insert l outliers else outliers) xs A =
     A \<union> set (map fst (filter (\<lambda>x. P (snd x)) xs))"
  by (induction xs arbitrary: A) (auto split: prod.splits)

lemma quartile_index_1: "nat \<lfloor>of_nat n * (0.25 :: rat)\<rfloor> = n div 4"
proof -
  have "of_nat n * (0.25 :: rat) = of_nat n / of_nat 4" by simp
  then show ?thesis by (simp only: floor_divide_of_nat_eq nat_int)
qed

lemma quartile_index_3: "nat \<lfloor>of_nat n * (0.75 :: rat)\<rfloor> = 3 * n div 4"
proof -
  have "of_nat n * (0.75 :: rat) = of_nat (3 * n) / of_nat 4" by simp
  then show ?thesis by (simp only: floor_divide_of_nat_eq nat_int)
qed

lemma detectOutliers_unfold:
  "detectOutliers its =
     (let priced = filter has_price its; n = length priced in
      if n < 4 then {}
      else (let sp = sort (map (\<lambda>i. the (price i)) priced);
                q1 = sp ! (n div 4); q3 = sp ! (3 * n div 4);
                iqr = num_sub q3 q1;
                lowerBound = num_sub q1 (num_mul (num 2) iqr);
                upperBound = num_add q3 (num_mul (num 2) iqr) in
            set (map link (filter (\<lambda>i. js_lt (the (price i)) lowerBound \<or>
                                        js_gt (the (price i)) upperBound) priced))))"
  unfolding detectOutliers_def Let_def fold_insert_outliers quartile_index_1 quartile_index_3
  by (simp add: filter_map comp_def)

lemma detectOutliers_priced: "detectOutliers (filter has_price its) = detectOutliers its"
  by (simp add: detectOutliers_def)

lemma priced_not_NaN: "i \<in> set (filter has_price its) \<Longrightarrow> the (price i) \<noteq> NaN"
  by (auto simp: has_price_iff js_gt_def js_lt_def)

lemma outside_interval:
  assumes "p \<noteq> NaN" "lo \<noteq> NaN" "hi \<noteq> NaN"
  shows "(js_lt p lo \<or> js_gt p hi) \<longleftrightarrow> \<not> (js_le lo p \<and> js_le p hi)"
  using assms by (auto simp: js_lt_def js_gt_def js_le_def)

text \<open>The two bounds for quartiles that are integers of magnitude up to \<open>2^50\<close>: no operation
  rounds.\<close>

lemma int_bounds:
  assumes "\<bar>k1\<bar> \<le> 2 ^ 50" "\<bar>k3\<bar> \<le> 2 ^ 50"
  shows "num_sub (num (of_int k1)) (num_mul (num 2) (num_sub (num (of_int k3)) (num (of_int k1)))) =
           num (of_int (k1 - 2 * (k3 - k1)))"
    and "num_add (num (of_int k3)) (num_mul (num 2) (num_sub (num (of_int k3)) (num (of_int k1)))) =
           num (of_int (k3 + 2 * (k3 - k1)))"
    and "\<bar>k1 - 2 * (k3 - k1)\<bar> \<le> 2 ^ 53" and "\<bar>k3 + 2 * (k3 - k1)\<bar> \<le> 2 ^ 53"
proof -
  have b: "\<bar>k1\<bar> \<le> 2 ^ 53" "\<bar>k3\<bar> \<le> 2 ^ 53" "\<bar>k3 - k1\<bar> \<le> 2 ^ 53" "\<bar>2 * (k3 - k1)\<bar> \<le> 2 ^ 53"
    "\<bar>2 :: int\<bar> \<le> 2 ^ 53"
    using assms by simp_all
  note r = b [THEN round_double_int]
  show "\<bar>k1 - 2 * (k3 - k1)\<bar> \<le> 2 ^ 53" "\<bar>k3 + 2 * (k3 - k1)\<bar> \<le> 2 ^ 53"
    using assms by simp_all
  have i: "num_sub (num (of_int k3)) (num (of_int k1)) = num (of_int (k3 - k1))"
    using num_arith_exact(2) [OF r(2) r(1)] by simp
  have m: "num_mul (num 2) (num (of_int (k3 - k1))) = num (of_int (2 * (k3 - k1)))"
    using num_arith_exact(3) [OF r(5) r(3)] by simp
  show "num_sub (num (of_int k1)) (num_mul (num 2) (num_sub (num (of_int k3)) (num (of_int k1)))) =
           num (of_int (k1 - 2 * (k3 - k1)))"
    unfolding i m using num_arith_exact(2) [OF r(1) r(4)] by simp
  show "num_add (num (of_int k3)) (num_mul (num 2) (num_sub (num (of_int k3)) (num (of_int k1)))) =
           num (of_int (k3 + 2 * (k3 - k1)))"
    unfolding i m using num_arith_exact(1) [OF r(2) r(4)] by simp
qed

text \<open>
  C4, as the code has it. \<open>detectOutliers\<close> depends on the positively priced items only. With
  fewer than four of them the result is empty. Otherwise, for the prices sorted ascending
  (any sorted list with the same elements), with \<open>Q1\<close> at index \<open>\<lfloor>0.25 n\<rfloor>\<close> and \<open>Q3\<close> at index
  \<open>\<lfloor>0.75 n\<rfloor>\<close> (both below \<open>n\<close>), the range \<open>IQR = Q3 - Q1\<close> and the bounds \<open>Q1 - 2.0 IQR\<close> and
  \<open>Q3 + 2.0 IQR\<close> are computed in the arithmetic of numbers, each operation rounded; the
  result is the set of the links of the priced items whose price is below the lower or above
  the upper bound: outside the closed interval between the bounds as computed, when neither
  is \<^verbatim>\<open>NaN\<close>. When \<open>Q1\<close> and \<open>Q3\<close> are integers of magnitude up to \<open>2^50\<close>, no operation rounds
  and the bounds are the integers \<open>Q1 - 2 (Q3 - Q1)\<close> and \<open>Q3 + 2 (Q3 - Q1)\<close>.
\<close>

theorem detectOutliers_iqr:
  "(let priced = filter (\<lambda>i. \<exists>p. price i = Some p \<and> js_gt p (num 0)) its;
        n = length priced
    in detectOutliers its = detectOutliers priced \<and>
       (n < 4 \<longrightarrow> detectOutliers its = {}) \<and>
       (4 \<le> n \<longrightarrow>
          (\<forall>sp. sorted sp \<and> mset sp = mset (map (\<lambda>i. the (price i)) priced) \<longrightarrow>
             (let i1 = nat \<lfloor>0.25 * (of_nat n :: rat)\<rfloor>;
                  i3 = nat \<lfloor>0.75 * (of_nat n :: rat)\<rfloor>;
                  Q1 = sp ! i1; Q3 = sp ! i3; IQR = num_sub Q3 Q1;
                  lower = num_sub Q1 (num_mul (num 2.0) IQR);
                  upper = num_add Q3 (num_mul (num 2.0) IQR)
              in i1 < n \<and> i3 < n \<and>
                 detectOutliers its =
                   set (map link (filter (\<lambda>i. js_lt (the (price i)) lower \<or>
                                               js_gt (the (price i)) upper) priced)) \<and>
                 (lower \<noteq> NaN \<and> upper \<noteq> NaN \<longrightarrow>
                    detectOutliers its =
                      set (map link (filter (\<lambda>i. \<not> (js_le lower (the (price i)) \<and>
                                                     js_le (the (price i)) upper)) priced))) \<and>
                 (\<forall>k1 k3. Q1 = num (of_int k1) \<and> Q3 = num (of_int k3) \<and>
                      \<bar>k1\<bar> \<le> 2 ^ 50 \<and> \<bar>k3\<bar> \<le> 2 ^ 50 \<longrightarrow>
                    lower = num (of_int (k1 - 2 * (k3 - k1))) \<and>
                    upper = num (of_int (k3 + 2 * (k3 - k1))) \<and>
                    num_val lower = of_int (k1 - 2 * (k3 - k1)) \<and>
                    num_val upper = of_int (k3 + 2 * (k3 - k1)) \<and>
                    detectOutliers its =
                      set (map link (filter (\<lambda>i. \<not> (js_le lower (the (price i)) \<and>
                                                     js_le (the (price i)) upper)) priced)))))))"
proof -
  let ?priced = "filter has_price its"
  let ?n = "length ?priced"
  have i1: "nat \<lfloor>0.25 * (of_nat ?n :: rat)\<rfloor> = ?n div 4"
    using quartile_index_1 [of ?n] by (simp add: mult.commute)
  have i3: "nat \<lfloor>0.75 * (of_nat ?n :: rat)\<rfloor> = 3 * ?n div 4"
    using quartile_index_3 [of ?n] by (simp add: mult.commute)
  have two: "num 2.0 = num 2" by simp
  have small: "?n < 4 \<Longrightarrow> detectOutliers its = {}"
    by (simp add: detectOutliers_unfold Let_def)
  define lower where "lower sp = num_sub (sp ! (?n div 4))
      (num_mul (num 2) (num_sub (sp ! (3 * ?n div 4)) (sp ! (?n div 4))))" for sp :: "number list"
  define upper where "upper sp = num_add (sp ! (3 * ?n div 4))
      (num_mul (num 2) (num_sub (sp ! (3 * ?n div 4)) (sp ! (?n div 4))))" for sp :: "number list"
  have big: "detectOutliers its =
          set (map link (filter (\<lambda>i. js_lt (the (price i)) (lower sp) \<or>
                                      js_gt (the (price i)) (upper sp)) ?priced))"
    if n: "4 \<le> ?n" and sp: "sorted sp" "mset sp = mset (map (\<lambda>i. the (price i)) ?priced)" for sp
  proof -
    have "sort (map (\<lambda>i. the (price i)) ?priced) = sp"
      using sp by (intro properties_for_sort) simp_all
    with n show ?thesis
      by (simp add: detectOutliers_unfold Let_def lower_def upper_def)
  qed
  have closed: "detectOutliers its =
          set (map link (filter (\<lambda>i. \<not> (js_le (lower sp) (the (price i)) \<and>
                                          js_le (the (price i)) (upper sp))) ?priced))"
    if n: "4 \<le> ?n" and sp: "sorted sp" "mset sp = mset (map (\<lambda>i. the (price i)) ?priced)"
      and nn: "lower sp \<noteq> NaN" "upper sp \<noteq> NaN" for sp
  proof -
    have "filter (\<lambda>i. js_lt (the (price i)) (lower sp) \<or> js_gt (the (price i)) (upper sp)) ?priced =
          filter (\<lambda>i. \<not> (js_le (lower sp) (the (price i)) \<and> js_le (the (price i)) (upper sp))) ?priced"
      by (rule filter_cong [OF refl]) (rule outside_interval [OF priced_not_NaN nn])
    then show ?thesis unfolding big [OF n sp] by simp
  qed
  have ints: "lower sp = num (of_int (k1 - 2 * (k3 - k1))) \<and>
              upper sp = num (of_int (k3 + 2 * (k3 - k1))) \<and>
              num_val (lower sp) = of_int (k1 - 2 * (k3 - k1)) \<and>
              num_val (upper sp) = of_int (k3 + 2 * (k3 - k1)) \<and>
              detectOutliers its =
                set (map link (filter (\<lambda>i. \<not> (js_le (lower sp) (the (price i)) \<and>
                                                js_le (the (price i)) (upper sp))) ?priced))"
    if n: "4 \<le> ?n" and sp: "sorted sp" "mset sp = mset (map (\<lambda>i. the (price i)) ?priced)"
      and q: "sp ! (?n div 4) = num (of_int k1)" "sp ! (3 * ?n div 4) = num (of_int k3)"
      and k: "\<bar>k1\<bar> \<le> 2 ^ 50" "\<bar>k3\<bar> \<le> 2 ^ 50" for sp k1 k3
  proof -
    note b = int_bounds [OF k]
    have l: "lower sp = num (of_int (k1 - 2 * (k3 - k1)))" unfolding lower_def q by (rule b(1))
    have u: "upper sp = num (of_int (k3 + 2 * (k3 - k1)))" unfolding upper_def q by (rule b(2))
    note e1 = num_exact [OF round_double_int [OF b(3)]]
    note e2 = num_exact [OF round_double_int [OF b(4)]]
    have "lower sp \<noteq> NaN" "upper sp \<noteq> NaN" unfolding l u using e1(5) e2(5) by simp_all
    from closed [OF n sp this] l u e1(3) e2(3) show ?thesis by simp
  qed
  have idx: "?n div 4 < ?n" "3 * ?n div 4 < ?n" if "4 \<le> ?n" using that by simp_all
  show ?thesis
    unfolding Let_def kept_filter [symmetric] i1 i3 detectOutliers_priced two
      lower_def [symmetric] upper_def [symmetric]
    using small big closed ints idx by (intro conjI allI impI; (elim conjE)?) blast+
qed

lemma example_prices_gt:
  "js_gt (num 10) (num 0)" "js_gt (num 11) (num 0)" "js_gt (num 12) (num 0)"
  "js_gt (num 13) (num 0)" "js_gt (num 1000) (num 0)" "js_gt (num 5) (num 0)"
  "js_gt (num 9) (num 0)" "js_gt (num 7) (num 0)"
  by (simp_all add: num_less_exact round_double_numeral round_double_0)

theorem detectOutliers_iqr_witness:
  "(let priced = filter (\<lambda>i. \<exists>p. price i = Some p \<and> js_gt p (num 0)) outlier_example;
        sp = [num 10, num 11, num 12, num 13, num 1000]
    in length priced = 5 \<and> sorted sp \<and> mset sp = mset (map (\<lambda>i. the (price i)) priced) \<and>
       nat \<lfloor>0.25 * (of_nat (length priced) :: rat)\<rfloor> = 1 \<and>
       nat \<lfloor>0.75 * (of_nat (length priced) :: rat)\<rfloor> = 3 \<and>
       sp ! 1 = num (of_int 11) \<and> sp ! 3 = num (of_int 13) \<and>
       \<bar>11 :: int\<bar> \<le> 2 ^ 50 \<and> \<bar>13 :: int\<bar> \<le> 2 ^ 50 \<and>
       num_sub (sp ! 1) (num_mul (num 2.0) (num_sub (sp ! 3) (sp ! 1))) = num 7 \<and>
       num_add (sp ! 3) (num_mul (num 2.0) (num_sub (sp ! 3) (sp ! 1))) = num 17 \<and>
       detectOutliers outlier_example = {''e''})"
proof -
  let ?P = "filter (\<lambda>i. \<exists>p. price i = Some p \<and> js_gt p (num 0)) outlier_example"
  let ?sp = "[num 10, num 11, num 12, num 13, num 1000]"
  let ?i1 = "nat \<lfloor>0.25 * (of_nat (length ?P) :: rat)\<rfloor>"
  let ?i3 = "nat \<lfloor>0.75 * (of_nat (length ?P) :: rat)\<rfloor>"
  have f: "?P = [example_item ''a'' (Some (num 10)), example_item ''b'' (Some (num 12)),
       example_item ''c'' (Some (num 11)), example_item ''d'' (Some (num 13)),
       example_item ''e'' (Some (num 1000))]"
    by (simp add: outlier_example_def example_item_def example_prices_gt)
  have n: "length ?P = 5" unfolding f by simp
  have s: "sorted ?sp"
    by (simp add: num_less_exact round_double_numeral)
  have m: "mset ?sp = mset (map (\<lambda>i. the (price i)) ?P)"
    unfolding f by (simp add: example_item_def)
  have i: "?i1 = 1" "?i3 = 3" unfolding n by (simp_all add: floor_rat_numeral)
  have four: "4 \<le> length ?P" unfolding n by simp
  have q: "?sp ! ?i1 = num (of_int 11) \<and> ?sp ! ?i3 = num (of_int 13) \<and>
      \<bar>11 :: int\<bar> \<le> 2 ^ 50 \<and> \<bar>13 :: int\<bar> \<le> 2 ^ 50"
    unfolding i by simp
  note T = detectOutliers_iqr [of outlier_example, unfolded Let_def, THEN conjunct2, THEN conjunct2,
      rule_format, OF four conjI [OF s m], THEN conjunct2, THEN conjunct2, THEN conjunct2,
      THEN conjunct2, rule_format, OF q]
  have l: "num_sub (?sp ! 1) (num_mul (num 2.0) (num_sub (?sp ! 3) (?sp ! 1))) = num 7"
    using T [THEN conjunct1] unfolding i by simp
  have u: "num_add (?sp ! 3) (num_mul (num 2.0) (num_sub (?sp ! 3) (?sp ! 1))) = num 17"
    using T [THEN conjunct2, THEN conjunct1] unfolding i by simp
  have "detectOutliers outlier_example =
      set (map link (filter (\<lambda>i. \<not> (js_le (num 7) (the (price i)) \<and> js_le (the (price i)) (num 17))) ?P))"
    using T [THEN conjunct2, THEN conjunct2, THEN conjunct2, THEN conjunct2] unfolding i l u .
  then have "detectOutliers outlier_example = {''e''}"
    unfolding f by (simp add: example_item_def num_less_exact round_double_numeral)
  with n s m i q l u show ?thesis unfolding Let_def i by simp
qed

subsection \<open>Prices with fractions\<close>

lemma round_half_even_near: "\<bar>y - of_int m\<bar> < 1 / 2 \<Longrightarrow> round_half_even y = m"
proof -
  assume a: "\<bar>y - of_int m\<bar> < 1 / 2"
  show ?thesis
  proof (cases "of_int m \<le> y")
    case True
    with a have "\<lfloor>y\<rfloor> = m" by (intro floor_unique) linarith+
    with a True show ?thesis by (simp add: round_half_even_def Let_def)
  next
    case False
    with a have f: "\<lfloor>y\<rfloor> = m - 1" by (intro floor_unique) (simp; linarith)+
    have "1 / 2 < y - of_int (m - 1)" using a False by simp
    with f show ?thesis by (simp add: round_half_even_def Let_def)
  qed
qed

lemma round_half_even_tie: "y = of_int m + 1 / 2 \<Longrightarrow> round_half_even y = (if even m then m else m + 1)"
proof -
  assume y: "y = of_int m + 1 / 2"
  then have "\<lfloor>y\<rfloor> = m" by (intro floor_unique) simp_all
  with y show ?thesis by (simp add: round_half_even_def Let_def)
qed

lemma double_0_1: "round_double (1 / 10) = Some (3602879701896397 / 36028797018963968)"
proof -
  have "round_half_even ((1 / 10) / 2 powi (- 56)) = 7205759403792794"
    by (rule round_half_even_near) (simp add: power_int_minus)
  then show ?thesis
    using round_double_at [of "1 / 10" "- 4"] by (simp add: Let_def power_int_minus)
qed

lemma double_1_3: "round_double (13 / 10) = Some (5854679515581645 / 4503599627370496)"
proof -
  have "round_half_even ((13 / 10) / 2 powi (- 52)) = 5854679515581645"
    by (rule round_half_even_near) (simp add: power_int_minus)
  then show ?thesis
    using round_double_at [of "13 / 10" 0] by (simp add: Let_def power_int_minus)
qed

lemma double_0_5: "round_double (1 / 2) = Some (1 / 2)"
  by (rule round_double_exact [of 1 "- 1"]) (simp_all add: power_int_minus)

lemma double_iqr:
  "round_double (1 / 2 - 3602879701896397 / 36028797018963968) =
     Some (3602879701896397 / 9007199254740992)"
proof -
  have "round_half_even ((1 / 2 - 3602879701896397 / 36028797018963968) / 2 powi (- 54)) =
      (if even (7205759403792793 :: int) then 7205759403792793 else 7205759403792793 + 1)"
    by (rule round_half_even_tie) (simp add: power_int_minus)
  then show ?thesis
    using round_double_at [of "1 / 2 - 3602879701896397 / 36028797018963968" "- 2"]
    by (simp add: Let_def power_int_minus)
qed

lemma double_lower:
  "round_double (3602879701896397 / 36028797018963968 - 3602879701896397 / 4503599627370496) =
     Some (- (6305039478318695 / 9007199254740992))"
proof -
  have "round_half_even (\<bar>3602879701896397 / 36028797018963968 - 3602879701896397 / 4503599627370496\<bar> /
      2 powi (- 53)) = 6305039478318695"
    by (rule round_half_even_near) (simp add: power_int_minus)
  then show ?thesis
    using round_double_at [of "3602879701896397 / 36028797018963968 - 3602879701896397 / 4503599627370496" "- 1"]
    by (simp add: Let_def power_int_minus)
qed

lemma num_round: "round_double x = Some y \<Longrightarrow> num x = num y"
  using num_Finite [of x y] num_Finite [of y y] by (simp add: round_double_idem)

lemma fraction_doubles:
  "round_double (3602879701896397 / 36028797018963968) = Some (3602879701896397 / 36028797018963968)"
  "round_double (5854679515581645 / 4503599627370496) = Some (5854679515581645 / 4503599627370496)"
  "round_double (3602879701896397 / 9007199254740992) = Some (3602879701896397 / 9007199254740992)"
  "round_double (3602879701896397 / 4503599627370496) = Some (3602879701896397 / 4503599627370496)"
  "round_double (- (6305039478318695 / 9007199254740992)) = Some (- (6305039478318695 / 9007199254740992))"
  "round_double (1 / 2) = Some (1 / 2)" "round_double 2 = Some 2" "round_double 0 = Some 0"
proof -
  show "round_double (3602879701896397 / 36028797018963968) = Some (3602879701896397 / 36028797018963968)"
    using double_0_1 by (rule round_double_idem)
  show "round_double (5854679515581645 / 4503599627370496) = Some (5854679515581645 / 4503599627370496)"
    using double_1_3 by (rule round_double_idem)
  show "round_double (3602879701896397 / 9007199254740992) = Some (3602879701896397 / 9007199254740992)"
    using double_iqr by (rule round_double_idem)
  show "round_double (3602879701896397 / 4503599627370496) = Some (3602879701896397 / 4503599627370496)"
    by (rule round_double_exact [of 3602879701896397 "- 52"]) (simp_all add: power_int_minus)
  show "round_double (- (6305039478318695 / 9007199254740992)) = Some (- (6305039478318695 / 9007199254740992))"
    using double_lower by (rule round_double_idem)
  show "round_double (1 / 2) = Some (1 / 2)" by (rule double_0_5)
  show "round_double 2 = Some 2" by (simp add: round_double_numeral)
  show "round_double 0 = Some 0" by (rule round_double_0)
qed

lemma fraction_bounds:
  "num_sub (num (1 / 2)) (num (3602879701896397 / 36028797018963968)) =
     num (3602879701896397 / 9007199254740992)"
  "num_mul (num 2) (num (3602879701896397 / 9007199254740992)) =
     num (3602879701896397 / 4503599627370496)"
  "num_add (num (1 / 2)) (num (3602879701896397 / 4503599627370496)) =
     num (5854679515581645 / 4503599627370496)"
  "num_sub (num (3602879701896397 / 36028797018963968)) (num (3602879701896397 / 4503599627370496)) =
     num (- (6305039478318695 / 9007199254740992))"
proof -
  note d = fraction_doubles
  show "num_sub (num (1 / 2)) (num (3602879701896397 / 36028797018963968)) =
     num (3602879701896397 / 9007199254740992)"
    unfolding num_arith_exact(2) [OF d(6) d(1)] using double_iqr by (rule num_round)
  show "num_mul (num 2) (num (3602879701896397 / 9007199254740992)) =
     num (3602879701896397 / 4503599627370496)"
    unfolding num_arith_exact(3) [OF d(7) d(3)] by simp
  show "num_add (num (1 / 2)) (num (3602879701896397 / 4503599627370496)) =
     num (5854679515581645 / 4503599627370496)"
    unfolding num_arith_exact(1) [OF d(6) d(4)] by simp
  show "num_sub (num (3602879701896397 / 36028797018963968)) (num (3602879701896397 / 4503599627370496)) =
     num (- (6305039478318695 / 9007199254740992))"
    unfolding num_arith_exact(2) [OF d(1) d(4)] using double_lower by (rule num_round)
qed

text \<open>
  C4 as stated fails: the bounds are rounded. Of five listings priced 0.1, 0.1, 0.5, 0.5 and
  1.3 (the numbers nearest to these), \<open>Q1\<close> is the number nearest to 0.1 and \<open>Q3\<close> is 0.5; the
  last price is above \<open>Q3 + 2 (Q3 - Q1)\<close>, outside the closed interval, and its listing is not
  flagged: the upper bound as computed is that price.
\<close>

theorem detectOutliers_iqr_counterexample:
  "(let priced = filter (\<lambda>i. \<exists>p. price i = Some p \<and> js_gt p (num 0)) fraction_example;
        n = length priced;
        sp = sort (map (\<lambda>i. the (price i)) priced);
        Q1 = num_val (sp ! nat \<lfloor>0.25 * (of_nat n :: rat)\<rfloor>);
        Q3 = num_val (sp ! nat \<lfloor>0.75 * (of_nat n :: rat)\<rfloor>);
        IQR = Q3 - Q1
    in priced = fraction_example \<and> n = 5 \<and>
       sp = [num 0.1, num 0.1, num 0.5, num 0.5, num 1.3] \<and>
       Q1 = 3602879701896397 / 36028797018963968 \<and> Q3 = 1 / 2 \<and>
       num_val (num 1.3) = 5854679515581645 / 4503599627370496 \<and>
       priced ! 4 = example_item ''e'' (Some (num 1.3)) \<and>
       \<not> (Q1 - 2.0 * IQR \<le> num_val (num 1.3) \<and> num_val (num 1.3) \<le> Q3 + 2.0 * IQR) \<and>
       ''e'' \<notin> detectOutliers fraction_example \<and> detectOutliers fraction_example = {})"
proof -
  note d = fraction_doubles
  have e: "num (1 / 10) = num (3602879701896397 / 36028797018963968)"
    "num (13 / 10) = num (5854679515581645 / 4503599627370496)"
    by (rule num_round [OF double_0_1], rule num_round [OF double_1_3])
  let ?a = "num (3602879701896397 / 36028797018963968)"
  let ?b = "num (1 / 2)"
  let ?c = "num (5854679515581645 / 4503599627370496)"
  have x: "fraction_example = [example_item ''a'' (Some ?a), example_item ''b'' (Some ?a),
      example_item ''c'' (Some ?b), example_item ''d'' (Some ?b), example_item ''e'' (Some ?c)]"
    by (simp add: fraction_example_def e)
  have g: "js_gt ?a (num 0)" "js_gt ?b (num 0)" "js_gt ?c (num 0)"
    by (simp_all add: num_less_exact d)
  have p: "filter (\<lambda>i. \<exists>p. price i = Some p \<and> js_gt p (num 0)) fraction_example = fraction_example"
    unfolding x by (simp add: example_item_def g)
  have hp: "filter has_price fraction_example = fraction_example"
    unfolding kept_filter by (rule p)
  have ps: "map (\<lambda>i. the (price i)) fraction_example = [?a, ?a, ?b, ?b, ?c]"
    unfolding x by (simp add: example_item_def)
  have srt: "sort [?a, ?a, ?b, ?b, ?c] = [?a, ?a, ?b, ?b, ?c]"
    by (rule sort_key_id_if_sorted) (simp add: num_less_exact d)
  have n: "length fraction_example = 5" unfolding x by simp
  have i: "nat \<lfloor>0.25 * (of_nat 5 :: rat)\<rfloor> = 1" "nat \<lfloor>0.75 * (of_nat 5 :: rat)\<rfloor> = 3"
    by (simp_all add: floor_rat_numeral)
  have v: "num_val ?a = 3602879701896397 / 36028797018963968" "num_val ?b = 1 / 2"
    "num_val ?c = 5854679515581645 / 4503599627370496"
    by (simp_all add: num_exact d)
  have out: "detectOutliers fraction_example = {}"
    unfolding detectOutliers_unfold Let_def hp n ps srt
    by (simp add: fraction_bounds) (simp add: x example_item_def num_less_exact d)
  show ?thesis
    unfolding Let_def p n ps srt i out
    by (simp add: e v) (simp add: x)
qed

lemma sorted_all_equal:
  assumes "mset sp = mset ps" and "\<forall>p\<in>set ps. p = c" and "i < length ps"
  shows "sp ! i = (c::number)"
proof -
  from assms(1) have "set sp = set ps" "length sp = length ps"
    by (metis set_mset_mset, metis size_mset)
  with assms(2,3) show ?thesis by (metis nth_mem)
qed

text \<open>The bounds for equal quartiles: the range is zero and both bounds are the common
  value, when it is finite; when it is \<^verbatim>\<open>Infinity\<close> the range and the bounds are \<^verbatim>\<open>NaN\<close>.\<close>

lemma equal_quartile_bounds:
  "num_sub (Finite q) (num_mul (num 2) (num_sub (Finite q) (Finite q))) = Finite q"
  "num_add (Finite q) (num_mul (num 2) (num_sub (Finite q) (Finite q))) = Finite q"
proof -
  have q: "Finite q = num (double_value q)" by simp
  note r = round_double_value [of q]
  have z: "num_sub (Finite q) (Finite q) = num 0"
    unfolding q using num_arith_exact(2) [OF r r] by simp
  have two: "round_double 2 = Some 2" by (simp add: round_double_numeral)
  have m: "num_mul (num 2) (num 0) = num 0"
    using num_arith_exact(3) [OF two round_double_0] by simp
  show "num_sub (Finite q) (num_mul (num 2) (num_sub (Finite q) (Finite q))) = Finite q"
    unfolding z m unfolding q using num_arith_exact(2) [OF r round_double_0] by simp
  show "num_add (Finite q) (num_mul (num 2) (num_sub (Finite q) (Finite q))) = Finite q"
    unfolding z m unfolding q using num_arith_exact(1) [OF r round_double_0] by simp
qed

lemma equal_quartile_flags:
  assumes "p \<noteq> NaN"
  shows "(js_lt p (num_sub c (num_mul (num 2) (num_sub c c))) \<or>
          js_gt p (num_add c (num_mul (num 2) (num_sub c c)))) \<longleftrightarrow>
         (\<exists>q. c = Finite q) \<and> p \<noteq> c"
proof (cases c)
  case (Finite q)
  show ?thesis unfolding Finite equal_quartile_bounds
    using assms by (auto simp: js_lt_def js_gt_def)
next
  case PosInfinity
  have "num 2 = Finite (Double 2)" by (rule num_exact(1)) (simp add: round_double_numeral)
  with PosInfinity show ?thesis by (simp add: num_sub_def js_lt_def js_gt_def)
next
  case NegInfinity
  have "num 2 = Finite (Double 2)" by (rule num_exact(1)) (simp add: round_double_numeral)
  with NegInfinity show ?thesis by (simp add: num_sub_def js_lt_def js_gt_def)
next
  case NaN
  have "num 2 = Finite (Double 2)" by (rule num_exact(1)) (simp add: round_double_numeral)
  with NaN show ?thesis by (simp add: num_sub_def js_lt_def js_gt_def)
qed

text \<open>
  C10. With at least four positively priced items whose sorted prices at the indices
  \<open>\<lfloor>0.25 n\<rfloor>\<close> and \<open>\<lfloor>0.75 n\<rfloor>\<close> are the same finite value \<open>q\<close>, the result is the set of the
  links of the priced items whose price is not \<open>q\<close>. When all priced items have the same
  price, the result is empty.
\<close>

theorem detectOutliers_zero_iqr:
  "(let priced = filter (\<lambda>i. \<exists>p. price i = Some p \<and> js_gt p (num 0)) its;
        n = length priced
    in (\<forall>sp q. 4 \<le> n \<and> sorted sp \<and> mset sp = mset (map (\<lambda>i. the (price i)) priced) \<and>
           sp ! nat \<lfloor>0.25 * (of_nat n :: rat)\<rfloor> = Finite q \<and>
           sp ! nat \<lfloor>0.75 * (of_nat n :: rat)\<rfloor> = Finite q \<longrightarrow>
           detectOutliers its = set (map link (filter (\<lambda>i. the (price i) \<noteq> Finite q) priced))) \<and>
       ((\<exists>c. \<forall>i\<in>set priced. price i = Some c) \<longrightarrow> detectOutliers its = {}))"
proof -
  let ?priced = "filter has_price its"
  let ?n = "length ?priced"
  let ?ps = "map (\<lambda>i. the (price i)) ?priced"
  have i1: "nat \<lfloor>0.25 * (of_nat ?n :: rat)\<rfloor> = ?n div 4"
    using quartile_index_1 [of ?n] by (simp add: mult.commute)
  have i3: "nat \<lfloor>0.75 * (of_nat ?n :: rat)\<rfloor> = 3 * ?n div 4"
    using quartile_index_3 [of ?n] by (simp add: mult.commute)
  have eq: "detectOutliers its =
      set (map link (filter (\<lambda>i. (\<exists>q. c = Finite q) \<and> the (price i) \<noteq> c) ?priced))"
    if n: "4 \<le> ?n" and q: "sort ?ps ! (?n div 4) = c" "sort ?ps ! (3 * ?n div 4) = c" for c
  proof -
    have feq: "filter (\<lambda>i. js_lt (the (price i)) (num_sub c (num_mul (num 2) (num_sub c c))) \<or>
                      js_gt (the (price i)) (num_add c (num_mul (num 2) (num_sub c c)))) ?priced =
          filter (\<lambda>i. (\<exists>q. c = Finite q) \<and> the (price i) \<noteq> c) ?priced"
      by (rule filter_cong [OF refl]) (rule equal_quartile_flags [OF priced_not_NaN])
    have "detectOutliers its =
        set (map link (filter (\<lambda>i. js_lt (the (price i)) (num_sub c (num_mul (num 2) (num_sub c c))) \<or>
                      js_gt (the (price i)) (num_add c (num_mul (num 2) (num_sub c c)))) ?priced))"
      using n q by (simp add: detectOutliers_unfold Let_def)
    then show ?thesis unfolding feq .
  qed
  have zero: "detectOutliers its = set (map link (filter (\<lambda>i. the (price i) \<noteq> Finite q) ?priced))"
    if n: "4 \<le> ?n" and sp: "sorted sp" "mset sp = mset ?ps"
      and q: "sp ! (?n div 4) = Finite q" "sp ! (3 * ?n div 4) = Finite q" for sp q
  proof -
    have "sort ?ps = sp" using sp by (intro properties_for_sort) simp_all
    with q have "sort ?ps ! (?n div 4) = Finite q" "sort ?ps ! (3 * ?n div 4) = Finite q" by simp_all
    from eq [OF n this] show ?thesis by simp
  qed
  have flat: "detectOutliers its = {}" if c: "\<forall>i\<in>set ?priced. price i = Some c" for c
  proof (cases "?n < 4")
    case True
    then show ?thesis by (simp add: detectOutliers_unfold Let_def)
  next
    case False
    then have n: "4 \<le> ?n" by simp
    have all: "\<forall>p\<in>set ?ps. p = c" using c by auto
    have m: "mset (sort ?ps) = mset ?ps" by simp
    have "sort ?ps ! (?n div 4) = c" "sort ?ps ! (3 * ?n div 4) = c"
      using n by (auto intro!: sorted_all_equal [OF m all])
    from eq [OF n this]
    have "detectOutliers its =
        set (map link (filter (\<lambda>i. (\<exists>q. c = Finite q) \<and> the (price i) \<noteq> c) ?priced))" .
    also have "filter (\<lambda>i. (\<exists>q. c = Finite q) \<and> the (price i) \<noteq> c) ?priced = []"
      using c by (auto simp: filter_empty_conv)
    finally show ?thesis by simp
  qed
  show ?thesis
    unfolding Let_def kept_filter [symmetric] i1 i3
    using zero flat by blast
qed

theorem detectOutliers_zero_iqr_witness:
  "detectOutliers flat_example = {''b''} \<and>
   detectOutliers [example_item ''a'' (Some (num 7)), example_item ''b'' (Some (num 7)),
      example_item ''c'' (Some (num 7)), example_item ''d'' (Some (num 7))] = {}"
proof -
  let ?P = "filter (\<lambda>i. \<exists>p. price i = Some p \<and> js_gt p (num 0)) flat_example"
  let ?sp = "[num 5, num 5, num 5, num 5, num 9]"
  have r5: "round_double 5 = Some 5" "round_double 9 = Some 9"
    by (simp_all add: round_double_numeral)
  have e5: "num 5 = Finite (Double 5)" by (rule num_exact(1) [OF r5(1)])
  have f: "?P = flat_example"
    by (simp add: flat_example_def example_item_def example_prices_gt)
  have n: "length ?P = 5" unfolding f by (simp add: flat_example_def)
  have s: "sorted ?sp" by (simp add: num_less_exact r5)
  have h: "4 \<le> length ?P \<and> sorted ?sp \<and> mset ?sp = mset (map (\<lambda>i. the (price i)) ?P) \<and>
      ?sp ! nat \<lfloor>0.25 * (of_nat (length ?P) :: rat)\<rfloor> = Finite (Double 5) \<and>
      ?sp ! nat \<lfloor>0.75 * (of_nat (length ?P) :: rat)\<rfloor> = Finite (Double 5)"
    unfolding n unfolding f using s
    by (simp add: flat_example_def example_item_def floor_rat_numeral e5 [symmetric])
  note T = detectOutliers_zero_iqr [of flat_example, unfolded Let_def, THEN conjunct1, rule_format, OF h]
  have ne: "num 9 \<noteq> num 5" by (simp add: num_less_exact r5)
  have a: "detectOutliers flat_example = {''b''}"
    unfolding T unfolding f e5 [symmetric] by (simp add: flat_example_def example_item_def ne)
  let ?L = "[example_item ''a'' (Some (num 7)), example_item ''b'' (Some (num 7)),
      example_item ''c'' (Some (num 7)), example_item ''d'' (Some (num 7))]"
  have "\<exists>c. \<forall>i\<in>set (filter (\<lambda>i. \<exists>p. price i = Some p \<and> js_gt p (num 0)) ?L). price i = Some c"
    by (intro exI [of _ "num 7"]) (simp add: example_item_def)
  from detectOutliers_zero_iqr [of ?L, unfolded Let_def, THEN conjunct2, rule_format, OF this]
  have b: "detectOutliers ?L = {}" .
  from a b show ?thesis by simp
qed

section \<open>Properties of fetchPageWithRetry\<close>

declare fetchPageWithRetry.simps [simp del]

lemma fetch_success:
  "get u w = (Inr data, w1) \<Longrightarrow> fetchPageWithRetry get u retries delayMs w = (Inr data, [Request u], w1)"
  by (subst fetchPageWithRetry.simps) simp

lemma fetch_surface:
  "get u w = (Inl err, w1) \<Longrightarrow> \<not> (retries > 0 \<and> retry_status (status_of err)) \<Longrightarrow>
   fetchPageWithRetry get u retries delayMs w = (Inl err, [Request u], w1)"
  by (subst fetchPageWithRetry.simps) auto

lemma fetch_retry:
  "get u w = (Inl err, w1) \<Longrightarrow> retries > 0 \<Longrightarrow> retry_status (status_of err) \<Longrightarrow>
   fetchPageWithRetry get u retries delayMs w =
     (case fetchPageWithRetry get u (retries - 1) (delayMs * 2) w1 of
        (r, evs, w2) \<Rightarrow> (r, Request u # Delay (delayMs * 2) # evs, w2))"
  by (subst fetchPageWithRetry.simps) (simp add: Let_def)

lemma retry_status_iff:
  "status_of err \<noteq> Some 0 \<Longrightarrow>
   retry_status (status_of err) \<longleftrightarrow>
     err = NoStatus \<or> err = HttpStatus 429 \<or> err = HttpStatus 502 \<or> err = HttpStatus 503"
  by (cases err) (auto simp: retry_status_def status_of_def)

lemma fetch_attempts:
  "fetchPageWithRetry get u retries delayMs w = (r, evs, w') \<Longrightarrow>
   1 \<le> attempts evs \<and> attempts evs \<le> retries + 1"
proof (induction get u retries delayMs w arbitrary: r evs w' rule: fetchPageWithRetry.induct)
  case (1 get u retries delayMs w)
  obtain res w1 where g: "get u w = (res, w1)" by (cases "get u w")
  show ?case
  proof (cases res)
    case (Inr data)
    with g "1.prems" show ?thesis by (auto simp: fetch_success attempts_def)
  next
    case (Inl err)
    show ?thesis
    proof (cases "retries > 0 \<and> retry_status (status_of err)")
      case False
      with g Inl "1.prems" show ?thesis by (auto simp: fetch_surface attempts_def)
    next
      case True
      obtain r2 evs2 w2 where rec: "fetchPageWithRetry get u (retries - 1) (delayMs * 2) w1 = (r2, evs2, w2)"
        by (cases "fetchPageWithRetry get u (retries - 1) (delayMs * 2) w1")
      have "1 \<le> attempts evs2 \<and> attempts evs2 \<le> retries - 1 + 1"
        by (rule "1.IH" [OF g [symmetric] Inl True refl rec])
      moreover from g Inl True rec "1.prems" have "evs = Request u # Delay (delayMs * 2) # evs2"
        by (auto simp: fetch_retry)
      ultimately show ?thesis using True by (simp add: attempts_def)
    qed
  qed
qed


lemma fetch_retry_attempts:
  assumes "get u w = (Inl err, w1)" "retries > 0" "retry_status (status_of err)"
    and "fetchPageWithRetry get u retries delayMs w = (r, evs, w')"
  shows "1 < attempts evs"
proof -
  obtain r2 evs2 w2 where rec: "fetchPageWithRetry get u (retries - 1) (delayMs * 2) w1 = (r2, evs2, w2)"
    by (cases "fetchPageWithRetry get u (retries - 1) (delayMs * 2) w1")
  from fetch_attempts [OF rec] have "1 \<le> attempts evs2" by simp
  moreover from assms rec have "evs = Request u # Delay (delayMs * 2) # evs2"
    by (auto simp: fetch_retry)
  ultimately show ?thesis by (auto simp: attempts_def)
qed

text \<open>
  C6. Every call makes at least one attempt and at most \<open>retries + 1\<close>, so at most 4 from
  the default of 3 retries. When the first attempt succeeds its page is returned with no
  retry. When it fails, with no response status or with a status of HTTP (which is never 0),
  the call makes a further attempt exactly when a retry remains and the failure has no
  status or one of the statuses 429, 502 and 503; the further attempts are those of the
  call with one retry less. Otherwise the error of the first attempt is the result, after
  that single request and no wait.
\<close>

theorem fetchPageWithRetry_policy:
  "(case fetchPageWithRetry get u retries delayMs w of (r, evs, w') \<Rightarrow>
      1 \<le> attempts evs \<and> attempts evs \<le> retries + 1 \<and>
      (\<forall>data w1. get u w = (Inr data, w1) \<longrightarrow> r = Inr data \<and> evs = [Request u] \<and> w' = w1) \<and>
      (\<forall>err w1. get u w = (Inl err, w1) \<and> status_of err \<noteq> Some 0 \<longrightarrow>
         (1 < attempts evs \<longleftrightarrow>
            0 < retries \<and> (err = NoStatus \<or> err = HttpStatus 429 \<or> err = HttpStatus 502 \<or>
                           err = HttpStatus 503)) \<and>
         (attempts evs = 1 \<longrightarrow> r = Inl err \<and> evs = [Request u] \<and> w' = w1) \<and>
         (1 < attempts evs \<longrightarrow>
            (r, evs, w') =
              (case fetchPageWithRetry get u (retries - 1) (delayMs * 2) w1 of
                 (r2, evs2, w2) \<Rightarrow> (r2, Request u # Delay (delayMs * 2) # evs2, w2))))) \<and>
   attempts (fst (snd (fetchPageWithRetry get u MAX_RETRIES INITIAL_DELAY w))) \<le> 4"
proof -
  obtain r evs w' where f: "fetchPageWithRetry get u retries delayMs w = (r, evs, w')"
    by (cases "fetchPageWithRetry get u retries delayMs w")
  note a = fetch_attempts [OF f]
  have s: "r = Inr data \<and> evs = [Request u] \<and> w' = w1" if "get u w = (Inr data, w1)" for data w1
    using fetch_success [of get u w data w1 retries delayMs] that f by simp
  have e: "(1 < attempts evs \<longleftrightarrow>
            0 < retries \<and> (err = NoStatus \<or> err = HttpStatus 429 \<or> err = HttpStatus 502 \<or>
                           err = HttpStatus 503)) \<and>
         (attempts evs = 1 \<longrightarrow> r = Inl err \<and> evs = [Request u] \<and> w' = w1) \<and>
         (1 < attempts evs \<longrightarrow>
            (r, evs, w') =
              (case fetchPageWithRetry get u (retries - 1) (delayMs * 2) w1 of
                 (r2, evs2, w2) \<Rightarrow> (r2, Request u # Delay (delayMs * 2) # evs2, w2)))"
    if g: "get u w = (Inl err, w1)" and z: "status_of err \<noteq> Some 0" for err w1
  proof (cases "retries > 0 \<and> retry_status (status_of err)")
    case True
    then have "1 < attempts evs" using fetch_retry_attempts [of get u w err w1 retries delayMs r evs w'] g f by simp
    moreover have "(r, evs, w') =
              (case fetchPageWithRetry get u (retries - 1) (delayMs * 2) w1 of
                 (r2, evs2, w2) \<Rightarrow> (r2, Request u # Delay (delayMs * 2) # evs2, w2))"
      using fetch_retry [of get u w err w1 retries delayMs] g True f by simp
    ultimately show ?thesis using True retry_status_iff [OF z] by simp
  next
    case False
    from fetch_surface [of get u w err w1 retries delayMs] g False f
    have "r = Inl err" "evs = [Request u]" "w' = w1" by simp_all
    then show ?thesis using False retry_status_iff [OF z] by (simp add: attempts_def)
  qed
  obtain r0 evs0 w0 where f0: "fetchPageWithRetry get u MAX_RETRIES INITIAL_DELAY w = (r0, evs0, w0)"
    by (cases "fetchPageWithRetry get u MAX_RETRIES INITIAL_DELAY w")
  from fetch_attempts [OF f0] have "attempts evs0 \<le> 4" by (simp add: MAX_RETRIES_def)
  with a s e show ?thesis unfolding f f0 by simp
qed


lemmas fetch_eval = fetchPageWithRetry.simps scripted_def MAX_RETRIES_def INITIAL_DELAY_def
  retry_status_def status_of_def Let_def

theorem fetchPageWithRetry_policy_witness:
  "scripted ''u'' [Inl (HttpStatus 503), Inl (HttpStatus 503), Inr ''page''] =
     (Inl (HttpStatus 503), [Inl (HttpStatus 503), Inr ''page'']) \<and>
   status_of (HttpStatus 503) \<noteq> Some 0 \<and>
   fetchPageWithRetry scripted ''u'' MAX_RETRIES INITIAL_DELAY
       [Inl (HttpStatus 503), Inl (HttpStatus 503), Inr ''page''] =
     (Inr ''page'', [Request ''u'', Delay 600, Request ''u'', Delay 1200, Request ''u''], []) \<and>
   scripted ''u'' [Inl (HttpStatus 404), Inr ''page''] = (Inl (HttpStatus 404), [Inr ''page'']) \<and>
   status_of (HttpStatus 404) \<noteq> Some 0 \<and>
   fetchPageWithRetry scripted ''u'' MAX_RETRIES INITIAL_DELAY [Inl (HttpStatus 404), Inr ''page''] =
     (Inl (HttpStatus 404), [Request ''u''], [Inr ''page''])"
proof -
  have a: "fetchPageWithRetry scripted ''u'' MAX_RETRIES INITIAL_DELAY
       [Inl (HttpStatus 503), Inl (HttpStatus 503), Inr ''page''] =
     (Inr ''page'', [Request ''u'', Delay 600, Request ''u'', Delay 1200, Request ''u''], [])"
    by (simp add: fetch_eval)
  have g: "scripted ''u'' [Inl (HttpStatus 404), Inr ''page''] = (Inl (HttpStatus 404), [Inr ''page''])"
    "status_of (HttpStatus 404) \<noteq> Some 0"
    "scripted ''u'' [Inl (HttpStatus 503), Inl (HttpStatus 503), Inr ''page''] =
     (Inl (HttpStatus 503), [Inl (HttpStatus 503), Inr ''page''])"
    "status_of (HttpStatus 503) \<noteq> Some 0"
    by (simp_all add: scripted_def status_of_def)
  obtain r evs w' where f: "fetchPageWithRetry scripted ''u'' MAX_RETRIES INITIAL_DELAY
      [Inl (HttpStatus 404), Inr ''page''] = (r, evs, w')"
    by (cases "fetchPageWithRetry scripted ''u'' MAX_RETRIES INITIAL_DELAY [Inl (HttpStatus 404), Inr ''page'']")
  from fetchPageWithRetry_policy [where get = scripted and u = "''u''" and retries = MAX_RETRIES
      and delayMs = INITIAL_DELAY and w = "[Inl (HttpStatus 404), Inr ''page'']"]
  have "\<not> 1 < attempts evs" "attempts evs = 1 \<longrightarrow> r = Inl (HttpStatus 404) \<and> evs = [Request ''u''] \<and> w' = [Inr ''page'']"
    "1 \<le> attempts evs"
    unfolding f using g(1,2) by simp_all
  then have "(r, evs, w') = (Inl (HttpStatus 404), [Request ''u''], [Inr ''page''])" by simp
  with a g f show ?thesis by simp
qed

lemma fetch_events:
  "fetchPageWithRetry get u retries delayMs w = (r, evs, w') \<Longrightarrow>
   \<exists>k. k \<le> retries \<and> evs = backoff_events u (map (\<lambda>j. delayMs * 2 ^ (j + 1)) [0..<k])"
proof (induction get u retries delayMs w arbitrary: r evs w' rule: fetchPageWithRetry.induct)
  case (1 get u retries delayMs w)
  obtain res w1 where g: "get u w = (res, w1)" by (cases "get u w")
  have single: "evs = [Request u] \<Longrightarrow> ?case"
    by (intro exI [of _ 0]) (simp add: backoff_events_def)
  show ?case
  proof (cases res)
    case (Inr data)
    with g "1.prems" show ?thesis by (intro single) (auto simp: fetch_success)
  next
    case (Inl err)
    show ?thesis
    proof (cases "retries > 0 \<and> retry_status (status_of err)")
      case False
      with g Inl "1.prems" show ?thesis by (intro single) (auto simp: fetch_surface)
    next
      case True
      obtain r2 evs2 w2 where rec: "fetchPageWithRetry get u (retries - 1) (delayMs * 2) w1 = (r2, evs2, w2)"
        by (cases "fetchPageWithRetry get u (retries - 1) (delayMs * 2) w1")
      from "1.IH" [OF g [symmetric] Inl True refl rec]
      obtain k where k: "k \<le> retries - 1"
        "evs2 = backoff_events u (map (\<lambda>j. delayMs * 2 * 2 ^ (j + 1)) [0..<k])" by blast
      from g Inl True rec "1.prems" have e: "evs = Request u # Delay (delayMs * 2) # evs2"
        by (auto simp: fetch_retry)
      have "map (\<lambda>j. delayMs * 2 ^ (j + 1)) [0..<Suc k] =
            (delayMs * 2) # map (\<lambda>j. delayMs * 2 * 2 ^ (j + 1)) [0..<k]"
        by (simp add: upt_conv_Cons map_Suc_upt [symmetric] del: upt_Suc)
      then have "evs = backoff_events u (map (\<lambda>j. delayMs * 2 ^ (j + 1)) [0..<Suc k])"
        unfolding e k(2) by (simp add: backoff_events_def)
      moreover have "Suc k \<le> retries" using k(1) True by linarith
      ultimately show ?thesis by blast
    qed
  qed
qed

lemma waits_backoff: "waits (backoff_events u ds) = ds"
  by (induction ds) (simp_all add: backoff_events_def)

lemma attempts_backoff: "attempts (backoff_events u ds) = length ds + 1"
  by (induction ds) (simp_all add: backoff_events_def attempts_def)

lemma hd_backoff: "hd (backoff_events u ds) = Request u"
  by (simp add: backoff_events_def)

lemma doubling_upto_3:
  "k \<le> 3 \<Longrightarrow> map (\<lambda>j. 300 * 2 ^ (j + 1)) [0..<k] = take k [600, 1200, 2400 :: nat]"
proof -
  assume "k \<le> 3"
  then consider "k = 0" | "k = 1" | "k = 2" | "k = 3" by linarith
  then show ?thesis by cases (simp_all add: upt_conv_Cons numeral_2_eq_2 numeral_3_eq_3)
qed

text \<open>
  C7, as amended. The events of a call with the defaults are a request, then for each retry a
  wait and a request: no wait comes before the first attempt. The waits before the retries
  1, 2 and 3 are 600, 1200 and 2400 milliseconds: each is the double of the one before, and
  the first is the double of \<open>INITIAL_DELAY = 300\<close>, since the code doubles the delay
  before it waits.
\<close>

theorem fetchPageWithRetry_backoff:
  "(case fetchPageWithRetry get u MAX_RETRIES INITIAL_DELAY w of (r, evs, w') \<Rightarrow>
      hd evs = Request u \<and>
      (\<exists>k. k \<le> 3 \<and> attempts evs = k + 1 \<and> waits evs = take k [600, 1200, 2400] \<and>
           evs = backoff_events u (take k [600, 1200, 2400])))"
proof -
  obtain r evs w' where f: "fetchPageWithRetry get u MAX_RETRIES INITIAL_DELAY w = (r, evs, w')"
    by (cases "fetchPageWithRetry get u MAX_RETRIES INITIAL_DELAY w")
  from fetch_events [OF f] obtain k where k: "k \<le> 3"
    "evs = backoff_events u (map (\<lambda>j. 300 * 2 ^ (j + 1)) [0..<k])"
    by (auto simp: MAX_RETRIES_def INITIAL_DELAY_def)
  from k have "evs = backoff_events u (take k [600, 1200, 2400])"
    by (simp only: doubling_upto_3)
  with k(1) show ?thesis unfolding f
    by (auto simp: waits_backoff attempts_backoff hd_backoff intro!: exI [of _ k])
qed

text \<open>
  C7 as stated fails: against a server that answers 503 three times, the waits are 600, 1200
  and 2400 milliseconds, not 300, 600 and 1200.
\<close>

theorem fetchPageWithRetry_backoff_counterexample:
  "waits (fst (snd (fetchPageWithRetry scripted ''u'' MAX_RETRIES INITIAL_DELAY
      [Inl (HttpStatus 503), Inl (HttpStatus 503), Inl (HttpStatus 503), Inr ''page'']))) =
     [600, 1200, 2400] \<and>
   [600, 1200, 2400] \<noteq> [300, 600, 1200 :: nat]"
  by (simp add: fetch_eval)

section \<open>Properties of scrapeItemDetails and of the batches\<close>

declare processInBatches_loop.simps [simp del]
declare crawl.simps [simp del]

lemma scrapeItemDetails_cases:
  "fetchPageWithRetry (axios_get env) u MAX_RETRIES INITIAL_DELAY w = (Inl err, evs, w1) \<Longrightarrow>
     scrapeItemDetails env u w = (Inr zero_details, evs, w1)"
  "fetchPageWithRetry (axios_get env) u MAX_RETRIES INITIAL_DELAY w = (Inr page, evs, w1) \<Longrightarrow>
     load_detail_page env page = Inl err \<Longrightarrow>
     scrapeItemDetails env u w = (Inr zero_details, evs, w1)"
  "fetchPageWithRetry (axios_get env) u MAX_RETRIES INITIAL_DELAY w = (Inr page, evs, w1) \<Longrightarrow>
     load_detail_page env page = Inr pd \<Longrightarrow>
     scrapeItemDetails env u w = (Inr (extract_details pd), evs, w1)"
  by (simp_all add: scrapeItemDetails_def)

lemma scrapeItemDetails_total:
  "\<exists>d evs w1. scrapeItemDetails env u w = (Inr d, evs, w1)"
proof -
  obtain r evs w1 where f: "fetchPageWithRetry (axios_get env) u MAX_RETRIES INITIAL_DELAY w = (r, evs, w1)"
    by (cases "fetchPageWithRetry (axios_get env) u MAX_RETRIES INITIAL_DELAY w")
  show ?thesis
  proof (cases r)
    case (Inl err)
    with f show ?thesis by (simp add: scrapeItemDetails_def)
  next
    case (Inr page)
    with f show ?thesis
      by (cases "load_detail_page env page") (simp_all add: scrapeItemDetails_def)
  qed
qed

lemma detail_processor_total:
  "\<exists>v evs w1. detail_processor env listing index w = (Inr v, evs, w1) \<and> link v = link listing"
proof -
  from scrapeItemDetails_total [of env "link listing" w]
  obtain d evs w1 where "scrapeItemDetails env (link listing) w = (Inr d, evs, w1)" by blast
  then show ?thesis by (simp add: detail_processor_def)
qed

lemma run_batch_total:
  assumes "\<And>item index w. \<exists>v evs w1. processor item index w = (Inr v, evs, w1) \<and> R item v"
  shows "\<exists>vs evs w1. run_batch processor batch index w = (map Inr vs, evs, w1) \<and> list_all2 R batch vs"
proof (induction batch arbitrary: index w)
  case Nil
  then show ?case by simp
next
  case (Cons item batch)
  from assms [of item index w] obtain v evs w1
    where p: "processor item index w = (Inr v, evs, w1)" "R item v" by blast
  from Cons.IH [of "index + 1" w1] obtain vs evs2 w2
    where r: "run_batch processor batch (index + 1) w1 = (map Inr vs, evs2, w2)" "list_all2 R batch vs"
    by blast
  from p r have "run_batch processor (item # batch) index w = (map Inr (v # vs), evs @ evs2, w2)"
    by simp
  with p(2) r(2) show ?case by (metis list_all2_Cons)
qed

lemma Promise_all_Inr: "Promise_all (map Inr vs) = Inr vs"
  by (induction vs) simp_all

lemma processInBatches_loop_total:
  assumes ok: "\<And>item index w. \<exists>v evs w1. processor item index w = (Inr v, evs, w1) \<and> R item v"
    and c: "0 < concurrency"
  shows "\<exists>vs evs w'. processInBatches_loop its processor concurrency d i results w =
            Some (Inr (results @ vs), evs, w') \<and> list_all2 R (drop i its) vs"
proof (induction "length its - i" arbitrary: i results w rule: less_induct)
  case less
  show ?case
  proof (cases "i < length its")
    case False
    then show ?thesis by (subst processInBatches_loop.simps) simp
  next
    case True
    let ?batch = "take concurrency (drop i its)"
    from run_batch_total [of processor R ?batch i w, OF ok]
    obtain vs evs w1 where rb: "run_batch processor ?batch i w = (map Inr vs, evs, w1)"
      and vs: "list_all2 R ?batch vs" by blast
    have "length its - (i + concurrency) < length its - i" using True c by simp
    from less [OF this, of "results @ vs" w1]
    obtain vs2 evs3 w2 where rec: "processInBatches_loop its processor concurrency d (i + concurrency)
          (results @ vs) w1 = Some (Inr ((results @ vs) @ vs2), evs3, w2)"
      and vs2: "list_all2 R (drop (i + concurrency) its) vs2" by blast
    have "processInBatches_loop its processor concurrency d i results w =
        Some (Inr (results @ vs @ vs2),
              evs @ (if i + concurrency < length its then [Delay d] else []) @ evs3, w2)"
      using True c rb rec by (subst processInBatches_loop.simps) (simp add: Promise_all_Inr)
    moreover have "list_all2 R (drop i its) (vs @ vs2)"
    proof -
      have d: "drop i its = ?batch @ drop (i + concurrency) its"
        by (metis add.commute append_take_drop_id drop_drop)
      from list_all2_appendI [OF vs vs2] show ?thesis by (subst d)
    qed
    ultimately show ?thesis by blast
  qed
qed

lemma detail_stage_total:
  "\<exists>its evs w'. processInBatches ls (detail_processor env) CONCURRENT_REQUESTS 500 w =
       Some (Inr its, evs, w') \<and> map link its = map link ls"
proof -
  have "0 < CONCURRENT_REQUESTS" by (simp add: CONCURRENT_REQUESTS_def)
  from processInBatches_loop_total [of "detail_processor env" "\<lambda>l v. link v = link l", OF detail_processor_total this,
      of ls 500 0 "[]" w]
  obtain vs evs w' where "processInBatches ls (detail_processor env) CONCURRENT_REQUESTS 500 w =
       Some (Inr vs, evs, w')" and r: "list_all2 (\<lambda>l v. link v = link l) ls vs"
    by (auto simp: processInBatches_def)
  moreover from r have "map link vs = map link ls"
    by (induction rule: list_all2_induct) simp_all
  ultimately show ?thesis by blast
qed


text \<open>
  C8. \<open>scrapeItemDetails\<close> never fails: its result is always a detail. When the fetch fails
  after its retries, or the loading of the markup throws, the result is the zero-value
  detail: no price, empty price text, empty description, no attributes. So the processor
  of a listing never fails either, and the batches over any listings end with one item per
  listing, in order.
\<close>

theorem scrapeItemDetails_never_fails:
  "(case scrapeItemDetails env u w of (r, evs, w') \<Rightarrow>
      (\<exists>d. r = Inr d) \<and>
      (\<forall>err evs1 w1.
          fetchPageWithRetry (axios_get env) u MAX_RETRIES INITIAL_DELAY w = (Inl err, evs1, w1) \<longrightarrow>
          r = Inr zero_details) \<and>
      (\<forall>page evs1 w1 err.
          fetchPageWithRetry (axios_get env) u MAX_RETRIES INITIAL_DELAY w = (Inr page, evs1, w1) \<and>
          load_detail_page env page = Inl err \<longrightarrow>
          r = Inr zero_details)) \<and>
   zero_details = \<lparr> d_price = None, d_priceText = [], d_description = [], d_attributes = Map.empty \<rparr> \<and>
   (\<exists>its evs w'. processInBatches ls (detail_processor env) CONCURRENT_REQUESTS 500 w =
        Some (Inr its, evs, w') \<and> map link its = map link ls)"
proof -
  obtain r evs w' where s: "scrapeItemDetails env u w = (r, evs, w')"
    by (cases "scrapeItemDetails env u w")
  from scrapeItemDetails_total [of env u w] s have a: "\<exists>d. r = Inr d" by simp
  have b: "r = Inr zero_details"
    if "fetchPageWithRetry (axios_get env) u MAX_RETRIES INITIAL_DELAY w = (Inl err, evs1, w1)"
    for err evs1 w1
    using scrapeItemDetails_cases(1) [OF that] s by simp
  have c: "r = Inr zero_details"
    if "fetchPageWithRetry (axios_get env) u MAX_RETRIES INITIAL_DELAY w = (Inr page, evs1, w1)"
      and "load_detail_page env page = Inl err"
    for page evs1 w1 err
    using scrapeItemDetails_cases(2) [OF that] s by simp
  from a b c detail_stage_total [of ls env w] show ?thesis
    unfolding s by (simp add: zero_details_def) blast
qed

theorem scrapeItemDetails_never_fails_witness:
  "fetchPageWithRetry (axios_get example_env) ''x'' MAX_RETRIES INITIAL_DELAY [Inl (HttpStatus 404)] =
     (Inl (HttpStatus 404), [Request ''x''], []) \<and>
   scrapeItemDetails example_env ''x'' [Inl (HttpStatus 404)] = (Inr zero_details, [Request ''x''], []) \<and>
   fetchPageWithRetry (axios_get example_env) ''x'' MAX_RETRIES INITIAL_DELAY [Inr ''bad''] =
     (Inr ''bad'', [Request ''x''], []) \<and>
   load_detail_page example_env ''bad'' = Inl NoStatus \<and>
   scrapeItemDetails example_env ''x'' [Inr ''bad''] = (Inr zero_details, [Request ''x''], [])"
proof -
  have f1: "fetchPageWithRetry (axios_get example_env) ''x'' MAX_RETRIES INITIAL_DELAY [Inl (HttpStatus 404)] =
     (Inl (HttpStatus 404), [Request ''x''], [])"
    by (simp add: example_env_def fetch_eval)
  have f2: "fetchPageWithRetry (axios_get example_env) ''x'' MAX_RETRIES INITIAL_DELAY [Inr ''bad''] =
     (Inr ''bad'', [Request ''x''], [])"
    by (simp add: example_env_def fetch_eval)
  have l: "load_detail_page example_env ''bad'' = Inl NoStatus"
    by (simp add: example_env_def example_detail_page_def)
  obtain r1 evs1 w1 where s1: "scrapeItemDetails example_env ''x'' [Inl (HttpStatus 404)] = (r1, evs1, w1)"
    by (cases "scrapeItemDetails example_env ''x'' [Inl (HttpStatus 404)]")
  obtain r2 evs2 w2 where s2: "scrapeItemDetails example_env ''x'' [Inr ''bad''] = (r2, evs2, w2)"
    by (cases "scrapeItemDetails example_env ''x'' [Inr ''bad'']")
  from scrapeItemDetails_never_fails [of example_env "''x''" "[Inl (HttpStatus 404)]" "[]"] f1
  have "r1 = Inr zero_details" unfolding s1 by simp
  moreover from scrapeItemDetails_never_fails [of example_env "''x''" "[Inr ''bad'']" "[]"] f2 l
  have "r2 = Inr zero_details" unfolding s2 by simp
  moreover have "evs1 = [Request ''x'']" "w1 = []" "evs2 = [Request ''x'']" "w2 = []"
    using s1 s2 f1 f2 l by (simp_all add: scrapeItemDetails_def)
  ultimately show ?thesis using f1 f2 l s1 s2 by simp
qed

section \<open>Properties of the attribute passes\<close>

declare strip_leading.simps [simp del]

lemmas trim_eval = trim_def strip_leading.simps js_whitespace_def

lemma trim_Color: "trim ''Color'' = ''Color''" "trim ''Red'' = ''Red''" "trim ''Blue'' = ''Blue''"
  by (simp_all add: trim_eval)

text \<open>White space beyond ASCII is trimmed too: here a no-break space (U+00A0) after the
  label and an ideographic space (U+3000) before it.\<close>

lemma trim_unicode:
  "trim ([CHR 0xE3, CHR 0x80, CHR 0x80] @ '' Color'' @ [CHR 0xC2, CHR 0xA0, CHR 0x0A]) = ''Color''"
  by (simp add: trim_eval)


lemma split_comma_nonempty: "split_comma s \<noteq> []"
  by (induction s) (auto split: list.splits)

lemma split_comma_no_comma: "p \<in> set (split_comma s) \<Longrightarrow> CHR '','' \<notin> set p"
  by (induction s arbitrary: p) (auto split: list.splits if_splits)

lemma split_comma_join: "concat (map (\<lambda>p. p @ '','') (split_comma s)) = s @ '',''"
  by (induction s) (auto split: list.splits simp: split_comma_nonempty)

lemma second_pass_Cons: "second_pass (el # els) attrs = second_pass els (li_fullRow_step el attrs)"
  by (simp add: second_pass_def)

lemma second_pass_at:
  "second_pass els attrs k =
     (let ms = filter (\<lambda>el. trim (p_first_text el) = k \<and> trim (p_width75_text el) \<noteq> []) els in
      if k = [] \<or> k = ''VIN Number'' \<or> k = ''__proto__'' \<or> ms = [] then attrs k
      else Some (comma_value (trim (p_width75_text (last ms)))))"
proof (induction els arbitrary: attrs)
  case Nil
  then show ?case by (simp add: second_pass_def)
next
  case (Cons el els)
  show ?case
    unfolding second_pass_Cons Cons.IH
    by (simp add: li_fullRow_step_def assign_def Let_def)
qed

text \<open>
  C9, as amended. The second pass stores, for every full-row list item whose trimmed label
  is not empty and is not \<open>VIN Number\<close> and whose trimmed value text is not empty, the
  comma-split value under that label, whether or not the first pass stored a value under
  it: the last such item decides. Under every other label the attributes are as the first
  pass left them; under \<open>VIN Number\<close> in particular. The one exception is the label
  \<open>__proto__\<close>, under which an assignment stores no property of the object: there too the
  attributes stay as they were. The comma-split value is the sequence of the trimmed
  non-empty pieces when there is more than one, the trimmed text otherwise.
\<close>

theorem second_pass_writes:
  "(let ms = filter (\<lambda>el. trim (p_first_text el) = k \<and> trim (p_width75_text el) \<noteq> []) els in
      second_pass els attrs k =
        (if k = [] \<or> k = ''VIN Number'' \<or> k = ''__proto__'' \<or> ms = [] then attrs k
         else Some (comma_value (trim (p_width75_text (last ms)))))) \<and>
   second_pass els attrs ''VIN Number'' = attrs ''VIN Number'' \<and>
   second_pass els attrs ''__proto__'' = attrs ''__proto__'' \<and>
   (let pieces = filter (\<lambda>p. p \<noteq> []) (map trim (split_comma v)) in
      comma_value v = (if 1 < length pieces then Multi pieces else Scalar v)) \<and>
   comma_value ''Leather, Sunroof'' = Multi [''Leather'', ''Sunroof''] \<and>
   comma_value ''Leather'' = Scalar ''Leather''"
proof -
  have "comma_value ''Leather, Sunroof'' = Multi [''Leather'', ''Sunroof'']"
    "comma_value ''Leather'' = Scalar ''Leather''"
    by (simp_all add: comma_value_def trim_eval)
  moreover have "second_pass els attrs ''VIN Number'' = attrs ''VIN Number''"
    by (simp add: second_pass_at [of els attrs "''VIN Number''"] Let_def)
  moreover have "second_pass els attrs ''__proto__'' = attrs ''__proto__''"
    by (simp add: second_pass_at [of els attrs "''__proto__''"] Let_def)
  moreover have "(let pieces = filter (\<lambda>p. p \<noteq> []) (map trim (split_comma v)) in
      comma_value v = (if 1 < length pieces then Multi pieces else Scalar v))"
    by (simp add: comma_value_def Let_def)
  ultimately show ?thesis using second_pass_at [of els attrs k] by simp
qed

text \<open>
  C9 as stated fails: a page with an ordinary field \<open>Color\<close> of value \<open>Red\<close> and a full-row
  list item \<open>Color\<close> of value \<open>Blue\<close> ends with \<open>Color = Blue\<close>; the second pass replaced
  the value of the first.
\<close>

theorem second_pass_counterexample:
  "first_pass clash_fields Map.empty ''Color'' = Some (Scalar ''Red'') \<and>
   second_pass clash_rows (first_pass clash_fields Map.empty) ''Color'' = Some (Scalar ''Blue'') \<and>
   d_attributes (extract_details \<lparr> post_price_text = [], postViewDescription_text = [],
      singeInfoFields = clash_fields, li_fullRows = clash_rows \<rparr>) ''Color'' = Some (Scalar ''Blue'')"
  by (simp add: extract_details_def first_pass_def second_pass_def clash_fields_def clash_rows_def
      singeInfoField_step_def li_fullRow_step_def assign_def trim_Color comma_value_def Let_def)

section \<open>Properties of the pagination\<close>

lemma add_unique_inv:
  "add_unique ls (seen, acc) = (seen', acc') \<Longrightarrow> seen = link ` set acc \<Longrightarrow> distinct (map link acc) \<Longrightarrow>
   seen' = link ` set acc' \<and> distinct (map link acc') \<and>
   link ` set acc' = link ` set acc \<union> link ` set ls"
proof (induction ls arbitrary: seen acc)
  case Nil
  then show ?case by auto
next
  case (Cons listing rest)
  show ?case
  proof (cases "link listing \<in> seen")
    case True
    with Cons.prems have "add_unique rest (seen, acc) = (seen', acc')" by simp
    from Cons.IH [OF this Cons.prems(2,3)] True Cons.prems(2) show ?thesis by auto
  next
    case False
    with Cons.prems have a: "add_unique rest (insert (link listing) seen, acc @ [listing]) = (seen', acc')"
      by simp
    have "insert (link listing) seen = link ` set (acc @ [listing])" using Cons.prems(2) by simp
    moreover have "distinct (map link (acc @ [listing]))" using Cons.prems(2,3) False by simp
    ultimately show ?thesis using Cons.IH [OF a] by auto
  qed
qed

lemma crawl_distinct:
  "crawl fuel env b cur seen acc w = Some (Inr res, evs, w') \<Longrightarrow>
   seen = link ` set acc \<Longrightarrow> distinct (map link acc) \<Longrightarrow> distinct (map link res)"
proof (induction fuel arbitrary: cur seen acc w evs w')
  case 0
  then show ?case by (subst (asm) crawl.simps) (auto split: if_splits)
next
  case (Suc fuel)
  show ?case
  proof (cases "truthy cur")
    case False
    with Suc.prems show ?thesis by (subst (asm) crawl.simps) simp
  next
    case True
    obtain r1 evs1 w1 where f: "fetchPageWithRetry (axios_get env) (the cur) MAX_RETRIES INITIAL_DELAY w = (r1, evs1, w1)"
      by (cases "fetchPageWithRetry (axios_get env) (the cur) MAX_RETRIES INITIAL_DELAY w")
    from Suc.prems(1) True f obtain page where r1: "r1 = Inr page"
      by (subst (asm) crawl.simps) (cases r1, auto)
    from Suc.prems(1) True f r1 obtain ex where ex: "extractListingsFromPage env page b = Inr ex"
      by (subst (asm) crawl.simps) (cases "extractListingsFromPage env page b", auto)
    obtain seen2 acc2 where a: "add_unique (listings ex) (seen, acc) = (seen2, acc2)"
      by (cases "add_unique (listings ex) (seen, acc)")
    note inv = add_unique_inv [OF a Suc.prems(2,3)]
    show ?thesis
    proof (cases "hasRecommendedListings ex")
      case True
      with Suc.prems(1) \<open>truthy cur\<close> f r1 ex a have "res = acc2"
        by (subst (asm) crawl.simps) simp
      with inv show ?thesis by simp
    next
      case False
      with Suc.prems(1) \<open>truthy cur\<close> f r1 ex a
      obtain evs3 w2 where "crawl fuel env b (nextPageUrl ex) seen2 acc2 w1 = Some (Inr res, evs3, w2)"
        by (subst (asm) crawl.simps) (auto split: option.splits)
      from Suc.IH [OF this] inv show ?thesis by simp
    qed
  qed
qed


lemma collect_listings_distinct:
  "collect_listings fuel env u w = Some (Inr acc, evs, w') \<Longrightarrow> distinct (map link acc)"
  by (cases "getBaseUrl env u") (auto simp: collect_listings_def dest: crawl_distinct)

lemma scrapeOpenSooq_distinct:
  assumes "scrapeOpenSooq fuel env u w = Some (Inr res, evs, w')"
  shows "distinct (map link (items res))"
proof -
  from assms obtain acc evs1 w1 where c: "collect_listings fuel env u w = Some (Inr acc, evs1, w1)"
    by (auto simp: scrapeOpenSooq_def split: option.splits sum.splits)
  from detail_stage_total [of acc env w1] obtain its evs2 w2
    where p: "processInBatches acc (detail_processor env) CONCURRENT_REQUESTS 500 w1 = Some (Inr its, evs2, w2)"
      and l: "map link its = map link acc" by blast
  from assms c p have "res = aggregate its" by (simp add: scrapeOpenSooq_def)
  then have "items res = filter has_price its" by (simp add: aggregate_def Let_def)
  moreover from collect_listings_distinct [OF c] l have "distinct (map link its)" by simp
  ultimately show ?thesis by (simp add: distinct_map_filter)
qed

lemma remdups_drop_seen: "x \<in> set Q \<Longrightarrow> remdups (P @ x # Q) = remdups (P @ Q)"
  by (induction P) auto

lemma add_unique_first_occurrences:
  "add_unique ls (seen, acc) = (seen', acc') \<Longrightarrow> seen = link ` set acc \<Longrightarrow> distinct (map link acc) \<Longrightarrow>
   map link acc' = rev (remdups (rev (map link acc @ map link ls)))"
proof (induction ls arbitrary: seen acc)
  case Nil
  then show ?case by (auto simp: distinct_remdups_id)
next
  case (Cons listing rest)
  show ?case
  proof (cases "link listing \<in> seen")
    case True
    with Cons.prems have a: "add_unique rest (seen, acc) = (seen', acc')" by simp
    from True Cons.prems(2) have "link listing \<in> set (rev (map link acc))" by auto
    from remdups_drop_seen [OF this, of "rev (map link rest)"] Cons.IH [OF a Cons.prems(2,3)]
    show ?thesis by simp
  next
    case False
    with Cons.prems have a: "add_unique rest (insert (link listing) seen, acc @ [listing]) = (seen', acc')"
      by simp
    have "insert (link listing) seen = link ` set (acc @ [listing])" using Cons.prems(2) by simp
    moreover have "distinct (map link (acc @ [listing]))" using Cons.prems(2,3) False by simp
    ultimately show ?thesis using Cons.IH [OF a] by simp
  qed
qed

lemma crawl_two_pages:
  assumes u: "u \<noteq> []"
    and f1: "fetchPageWithRetry (axios_get env) u MAX_RETRIES INITIAL_DELAY w = (Inr h1, evs1, w1)"
    and x1: "extractListingsFromPage env h1 b = Inr p1"
    and m1: "\<not> hasRecommendedListings p1"
    and n1: "nextPageUrl p1 = Some u2" "u2 \<noteq> []"
    and f2: "fetchPageWithRetry (axios_get env) u2 MAX_RETRIES INITIAL_DELAY w1 = (Inr h2, evs2, w2)"
    and x2: "extractListingsFromPage env h2 b = Inr p2"
    and m2: "hasRecommendedListings p2 \<or> \<not> truthy (nextPageUrl p2)"
  shows "crawl (Suc (Suc fuel)) env b (Some u) {} [] w =
     Some (Inr (snd (add_unique (listings p2) (add_unique (listings p1) ({}, [])))),
           evs1 @ [Delay 500] @ evs2, w2)"
proof -
  obtain s1 a1 where a1: "add_unique (listings p1) ({}, []) = (s1, a1)"
    by (cases "add_unique (listings p1) ({}, [])")
  obtain s2 a2 where a2: "add_unique (listings p2) (s1, a1) = (s2, a2)"
    by (cases "add_unique (listings p2) (s1, a1)")
  have second: "crawl (Suc fuel) env b (Some u2) s1 a1 w1 = Some (Inr a2, evs2, w2)"
  proof (cases "hasRecommendedListings p2")
    case True
    with n1 f2 x2 a2 show ?thesis by (subst crawl.simps) (simp add: truthy_def)
  next
    case False
    with m2 have "\<not> truthy (nextPageUrl p2)" by simp
    then have "crawl fuel env b (nextPageUrl p2) s2 a2 w2 = Some (Inr a2, [], w2)"
      by (subst crawl.simps) simp
    with False n1 f2 x2 a2 \<open>\<not> truthy (nextPageUrl p2)\<close> show ?thesis
      by (subst crawl.simps) (simp add: truthy_def)
  qed
  from u f1 x1 m1 n1 a1 second have "crawl (Suc (Suc fuel)) env b (Some u) {} [] w =
     Some (Inr a2, evs1 @ [Delay 500] @ evs2, w2)"
    by (subst crawl.simps) (simp add: truthy_def)
  with a1 a2 show ?thesis by simp
qed

text \<open>
  C5. Whenever the pagination ends with listings, their links are pairwise distinct, and so
  are the links of the items of the result of \<open>scrapeOpenSooq\<close>. Merging two pages into the
  empty accumulation gives listings with distinct links whose links are exactly those of
  the first page and of the second. And the crawler itself, when the seed page is fetched
  and has a next page, and that page is fetched and is the last (it has the marker, or no
  next page), returns after these two fetches and one wait the merge of the two pages: its
  links are distinct, they are exactly the links of the first page and of the second, in the
  order of their first occurrence; a link of the second page that the first had is skipped.
\<close>

theorem crawl_unique_links:
  "(\<forall>acc evs w'. collect_listings fuel env u w = Some (Inr acc, evs, w') \<longrightarrow>
       distinct (map link acc)) \<and>
   (\<forall>res evs w'. scrapeOpenSooq fuel env u w = Some (Inr res, evs, w') \<longrightarrow>
       distinct (map link (items res))) \<and>
   (\<forall>seen acc. add_unique page2 (add_unique page1 ({}, [])) = (seen, acc) \<longrightarrow>
       distinct (map link acc) \<and>
       set (map link acc) = set (map link page1) \<union> set (map link page2) \<and>
       seen = set (map link acc)) \<and>
   (\<forall>b h1 evs1 w1 p1 u2 h2 evs2 w2 p2.
       getBaseUrl env u = Inr b \<and> u \<noteq> [] \<and>
       fetchPageWithRetry (axios_get env) u MAX_RETRIES INITIAL_DELAY w = (Inr h1, evs1, w1) \<and>
       extractListingsFromPage env h1 b = Inr p1 \<and> \<not> hasRecommendedListings p1 \<and>
       nextPageUrl p1 = Some u2 \<and> u2 \<noteq> [] \<and>
       fetchPageWithRetry (axios_get env) u2 MAX_RETRIES INITIAL_DELAY w1 = (Inr h2, evs2, w2) \<and>
       extractListingsFromPage env h2 b = Inr p2 \<and>
       (hasRecommendedListings p2 \<or> \<not> truthy (nextPageUrl p2)) \<longrightarrow>
       (\<exists>acc. collect_listings (Suc (Suc fuel)) env u w =
                 Some (Inr acc, evs1 @ [Delay 500] @ evs2, w2) \<and>
              acc = snd (add_unique (listings p2) (add_unique (listings p1) ({}, []))) \<and>
              distinct (map link acc) \<and>
              set (map link acc) = set (map link (listings p1)) \<union> set (map link (listings p2)) \<and>
              map link acc = rev (remdups (rev (map link (listings p1 @ listings p2))))))"
proof -
  have merge: "distinct (map link acc) \<and>
       set (map link acc) = set (map link page1) \<union> set (map link page2) \<and>
       seen = set (map link acc) \<and>
       map link acc = rev (remdups (rev (map link (page1 @ page2))))"
    if a: "add_unique page2 (add_unique page1 ({}, [])) = (seen, acc)" for seen acc page1 page2
  proof -
    obtain seen1 acc1 where a1: "add_unique page1 ({}, []) = (seen1, acc1)"
      by (cases "add_unique page1 ({}, [])")
    from add_unique_inv [OF a1] have i1: "seen1 = link ` set acc1" "distinct (map link acc1)"
      "link ` set acc1 = link ` set page1" by simp_all
    from add_unique_first_occurrences [OF a1] have o1: "map link acc1 = rev (remdups (rev (map link page1)))"
      by simp
    from a a1 have a2: "add_unique page2 (seen1, acc1) = (seen, acc)" by simp
    from add_unique_first_occurrences [OF a2 i1(1,2)]
    have "map link acc = rev (remdups (rev (map link acc1 @ map link page2)))" .
    also have "\<dots> = rev (remdups (rev (map link page1 @ map link page2)))"
      unfolding o1 by (simp add: remdups_append2)
    finally have o: "map link acc = rev (remdups (rev (map link (page1 @ page2))))" by simp
    from add_unique_inv [OF a2 i1(1,2)] i1(3) have "distinct (map link acc) \<and>
       set (map link acc) = set (map link page1) \<union> set (map link page2) \<and>
       seen = set (map link acc)" by auto
    with o show ?thesis by (intro conjI) (elim conjE, assumption)+
  qed
  have two: "\<exists>acc. collect_listings (Suc (Suc fuel)) env u w =
                 Some (Inr acc, evs1 @ [Delay 500] @ evs2, w2) \<and>
              acc = snd (add_unique (listings p2) (add_unique (listings p1) ({}, []))) \<and>
              distinct (map link acc) \<and>
              set (map link acc) = set (map link (listings p1)) \<union> set (map link (listings p2)) \<and>
              map link acc = rev (remdups (rev (map link (listings p1 @ listings p2))))"
    if h: "getBaseUrl env u = Inr b" "u \<noteq> []"
      "fetchPageWithRetry (axios_get env) u MAX_RETRIES INITIAL_DELAY w = (Inr h1, evs1, w1)"
      "extractListingsFromPage env h1 b = Inr p1" "\<not> hasRecommendedListings p1"
      "nextPageUrl p1 = Some u2" "u2 \<noteq> []"
      "fetchPageWithRetry (axios_get env) u2 MAX_RETRIES INITIAL_DELAY w1 = (Inr h2, evs2, w2)"
      "extractListingsFromPage env h2 b = Inr p2"
      "hasRecommendedListings p2 \<or> \<not> truthy (nextPageUrl p2)"
    for b h1 evs1 w1 p1 u2 h2 evs2 w2 p2
  proof -
    obtain seen acc where a: "add_unique (listings p2) (add_unique (listings p1) ({}, [])) = (seen, acc)"
      by (cases "add_unique (listings p2) (add_unique (listings p1) ({}, []))")
    from crawl_two_pages [OF h(2-10), of fuel] h(1) a
    have "collect_listings (Suc (Suc fuel)) env u w = Some (Inr acc, evs1 @ [Delay 500] @ evs2, w2)"
      by (simp add: collect_listings_def)
    with merge [OF a] a show ?thesis by simp
  qed
  from merge have m: "\<forall>seen acc. add_unique page2 (add_unique page1 ({}, [])) = (seen, acc) \<longrightarrow>
       distinct (map link acc) \<and>
       set (map link acc) = set (map link page1) \<union> set (map link page2) \<and>
       seen = set (map link acc)" by blast
  from two have t: "\<forall>b h1 evs1 w1 p1 u2 h2 evs2 w2 p2.
       getBaseUrl env u = Inr b \<and> u \<noteq> [] \<and>
       fetchPageWithRetry (axios_get env) u MAX_RETRIES INITIAL_DELAY w = (Inr h1, evs1, w1) \<and>
       extractListingsFromPage env h1 b = Inr p1 \<and> \<not> hasRecommendedListings p1 \<and>
       nextPageUrl p1 = Some u2 \<and> u2 \<noteq> [] \<and>
       fetchPageWithRetry (axios_get env) u2 MAX_RETRIES INITIAL_DELAY w1 = (Inr h2, evs2, w2) \<and>
       extractListingsFromPage env h2 b = Inr p2 \<and>
       (hasRecommendedListings p2 \<or> \<not> truthy (nextPageUrl p2)) \<longrightarrow>
       (\<exists>acc. collect_listings (Suc (Suc fuel)) env u w =
                 Some (Inr acc, evs1 @ [Delay 500] @ evs2, w2) \<and>
              acc = snd (add_unique (listings p2) (add_unique (listings p1) ({}, []))) \<and>
              distinct (map link acc) \<and>
              set (map link acc) = set (map link (listings p1)) \<union> set (map link (listings p2)) \<and>
              map link acc = rev (remdups (rev (map link (listings p1 @ listings p2)))))"
    by (intro allI impI) (elim conjE, rule two)
  from collect_listings_distinct [of fuel env u w] scrapeOpenSooq_distinct [of fuel env u w]
  have d: "\<forall>acc evs w'. collect_listings fuel env u w = Some (Inr acc, evs, w') \<longrightarrow>
       distinct (map link acc)"
    "\<forall>res evs w'. scrapeOpenSooq fuel env u w = Some (Inr res, evs, w') \<longrightarrow>
       distinct (map link (items res))" by blast+
  from d m t show ?thesis by (intro conjI)
qed

lemma example_collect:
  "collect_listings 5 example_env ''u1'' example_script =
     Some (Inr [example_listing ''a'', example_listing ''b'', example_listing ''c''],
           [Request ''u1'', Delay 500, Request ''u2''],
           [Inr ''10 JOD'', Inl (HttpStatus 404), Inr ''30 JOD''])"
  by (simp add: collect_listings_def example_env_def example_script_def crawl.simps fetch_eval
      truthy_def example_listing_page_def example_listing_def)


lemma example_details:
  "scrapeItemDetails example_env ''a'' [Inr ''10 JOD'', Inl (HttpStatus 404), Inr ''30 JOD''] =
     (Inr \<lparr> d_price = Some (num 10), d_priceText = ''10 JOD'', d_description = [], d_attributes = Map.empty \<rparr>,
      [Request ''a''], [Inl (HttpStatus 404), Inr ''30 JOD''])"
  "scrapeItemDetails example_env ''b'' [Inl (HttpStatus 404), Inr ''30 JOD''] =
     (Inr zero_details, [Request ''b''], [Inr ''30 JOD''])"
  "scrapeItemDetails example_env ''c'' [Inr ''30 JOD''] =
     (Inr \<lparr> d_price = Some (num 30), d_priceText = ''30 JOD'', d_description = [], d_attributes = Map.empty \<rparr>,
      [Request ''c''], [])"
  by (simp_all add: scrapeItemDetails_def example_env_def fetch_eval example_detail_page_def
      extract_details_def first_pass_def second_pass_def trim_eval
      parsePrice_def cleaned_def parseFloat_def is_digit_def digits_val_def digit_val_def
      num_not_NaN)

lemma example_batches:
  "processInBatches [example_listing ''a'', example_listing ''b'', example_listing ''c'']
      (detail_processor example_env) CONCURRENT_REQUESTS 500
      [Inr ''10 JOD'', Inl (HttpStatus 404), Inr ''30 JOD''] =
   Some (Inr [example_item ''a'' (Some (num 10)) \<lparr> priceText := ''10 JOD'' \<rparr>,
              example_item ''b'' None,
              example_item ''c'' (Some (num 30)) \<lparr> priceText := ''30 JOD'' \<rparr>],
         [Request ''a'', Request ''b'', Request ''c''], [])"
  by (simp add: processInBatches_def processInBatches_loop.simps CONCURRENT_REQUESTS_def
      detail_processor_def example_listing_def example_details zero_details_def example_item_def)

lemma example_run:
  "\<exists>res. scrapeOpenSooq 5 example_env ''u1'' example_script =
     Some (Inr res, [Request ''u1'', Delay 500, Request ''u2'', Request ''a'', Request ''b'', Request ''c''], []) \<and>
     map link (items res) = [''a'', ''c''] \<and> totalItems res = 2 \<and>
     minPrice res = Some (num 10) \<and> maxPrice res = Some (num 30) \<and> avgPrice res = Some (num 20)"
  by (simp add: scrapeOpenSooq_def example_collect example_batches aggregate_unfold
      example_item_def has_price_def num_less_exact num_arith_exact round_double_numeral
      round_double_0 Math_round_exact floor_rat_numeral)


theorem crawl_unique_links_witness:
  "collect_listings 5 example_env ''u1'' example_script =
     Some (Inr [example_listing ''a'', example_listing ''b'', example_listing ''c''],
           [Request ''u1'', Delay 500, Request ''u2''],
           [Inr ''10 JOD'', Inl (HttpStatus 404), Inr ''30 JOD'']) \<and>
   distinct (map link [example_listing ''a'', example_listing ''b'', example_listing ''c'']) \<and>
   (\<exists>res evs w'. scrapeOpenSooq 5 example_env ''u1'' example_script = Some (Inr res, evs, w') \<and>
      map link (items res) = [''a'', ''c''] \<and> distinct (map link (items res))) \<and>
   add_unique [example_listing ''b'', example_listing ''c'']
     (add_unique [example_listing ''a'', example_listing ''b''] ({}, [])) =
     ({''a'', ''b'', ''c''}, [example_listing ''a'', example_listing ''b'', example_listing ''c'']) \<and>
   getBaseUrl example_env ''u1'' = Inr ''s'' \<and>
   fetchPageWithRetry (axios_get example_env) ''u1'' MAX_RETRIES INITIAL_DELAY example_script =
     (Inr ''p1'', [Request ''u1''],
      [Inr ''p2'', Inr ''10 JOD'', Inl (HttpStatus 404), Inr ''30 JOD'']) \<and>
   extractListingsFromPage example_env ''p1'' ''s'' =
     Inr \<lparr> listings = [example_listing ''a'', example_listing ''b''],
           hasRecommendedListings = False, nextPageUrl = Some ''u2'' \<rparr> \<and>
   fetchPageWithRetry (axios_get example_env) ''u2'' MAX_RETRIES INITIAL_DELAY
       [Inr ''p2'', Inr ''10 JOD'', Inl (HttpStatus 404), Inr ''30 JOD''] =
     (Inr ''p2'', [Request ''u2''], [Inr ''10 JOD'', Inl (HttpStatus 404), Inr ''30 JOD'']) \<and>
   extractListingsFromPage example_env ''p2'' ''s'' =
     Inr \<lparr> listings = [example_listing ''b'', example_listing ''c''],
           hasRecommendedListings = False, nextPageUrl = None \<rparr> \<and>
   (\<exists>acc. collect_listings (Suc (Suc 0)) example_env ''u1'' example_script =
       Some (Inr acc, [Request ''u1''] @ [Delay 500] @ [Request ''u2''],
             [Inr ''10 JOD'', Inl (HttpStatus 404), Inr ''30 JOD'']) \<and>
     map link acc = [''a'', ''b'', ''c''])"
proof -
  note T = crawl_unique_links [where fuel = 5 and env = example_env and u = "''u1''"
      and w = example_script and ?page1.0 = "[example_listing ''a'', example_listing ''b'']"
      and ?page2.0 = "[example_listing ''b'', example_listing ''c'']"]
  have a: "distinct (map link [example_listing ''a'', example_listing ''b'', example_listing ''c''])"
    by (rule T [THEN conjunct1, rule_format, OF example_collect])
  from example_run obtain res where
    r: "scrapeOpenSooq 5 example_env ''u1'' example_script =
      Some (Inr res, [Request ''u1'', Delay 500, Request ''u2'', Request ''a'', Request ''b'',
        Request ''c''], [])"
    and l: "map link (items res) = [''a'', ''c'']" by (elim exE conjE)
  have b: "distinct (map link (items res))"
    by (rule T [THEN conjunct2, THEN conjunct1, rule_format, OF r])
  have c: "add_unique [example_listing ''b'', example_listing ''c'']
     (add_unique [example_listing ''a'', example_listing ''b''] ({}, [])) =
     ({''a'', ''b'', ''c''}, [example_listing ''a'', example_listing ''b'', example_listing ''c''])"
    by (auto simp: example_listing_def)
  from r l b have e: "\<exists>res evs w'. scrapeOpenSooq 5 example_env ''u1'' example_script = Some (Inr res, evs, w') \<and>
      map link (items res) = [''a'', ''c''] \<and> distinct (map link (items res))"
    by (intro exI conjI)
  let ?p1 = "\<lparr> listings = [example_listing ''a'', example_listing ''b''],
           hasRecommendedListings = False, nextPageUrl = Some ''u2'' \<rparr>"
  let ?p2 = "\<lparr> listings = [example_listing ''b'', example_listing ''c''],
           hasRecommendedListings = False, nextPageUrl = None \<rparr>"
  have h1: "getBaseUrl example_env ''u1'' = Inr ''s''" by (simp add: example_env_def)
  have h2: "fetchPageWithRetry (axios_get example_env) ''u1'' MAX_RETRIES INITIAL_DELAY example_script =
     (Inr ''p1'', [Request ''u1''],
      [Inr ''p2'', Inr ''10 JOD'', Inl (HttpStatus 404), Inr ''30 JOD''])"
    by (simp add: example_env_def example_script_def fetch_eval)
  have h3: "extractListingsFromPage example_env ''p1'' ''s'' = Inr ?p1"
    by (simp add: example_env_def example_listing_page_def)
  have h4: "fetchPageWithRetry (axios_get example_env) ''u2'' MAX_RETRIES INITIAL_DELAY
       [Inr ''p2'', Inr ''10 JOD'', Inl (HttpStatus 404), Inr ''30 JOD''] =
     (Inr ''p2'', [Request ''u2''], [Inr ''10 JOD'', Inl (HttpStatus 404), Inr ''30 JOD''])"
    by (simp add: example_env_def fetch_eval)
  have h5: "extractListingsFromPage example_env ''p2'' ''s'' = Inr ?p2"
    by (simp add: example_env_def example_listing_page_def)
  have hyp: "getBaseUrl example_env ''u1'' = Inr ''s'' \<and> ''u1'' \<noteq> [] \<and>
       fetchPageWithRetry (axios_get example_env) ''u1'' MAX_RETRIES INITIAL_DELAY example_script =
         (Inr ''p1'', [Request ''u1''],
          [Inr ''p2'', Inr ''10 JOD'', Inl (HttpStatus 404), Inr ''30 JOD'']) \<and>
       extractListingsFromPage example_env ''p1'' ''s'' = Inr ?p1 \<and> \<not> hasRecommendedListings ?p1 \<and>
       nextPageUrl ?p1 = Some ''u2'' \<and> ''u2'' \<noteq> [] \<and>
       fetchPageWithRetry (axios_get example_env) ''u2'' MAX_RETRIES INITIAL_DELAY
          [Inr ''p2'', Inr ''10 JOD'', Inl (HttpStatus 404), Inr ''30 JOD''] =
         (Inr ''p2'', [Request ''u2''], [Inr ''10 JOD'', Inl (HttpStatus 404), Inr ''30 JOD'']) \<and>
       extractListingsFromPage example_env ''p2'' ''s'' = Inr ?p2 \<and>
       (hasRecommendedListings ?p2 \<or> \<not> truthy (nextPageUrl ?p2))"
    using h1 h2 h3 h4 h5 by (simp add: truthy_def)
  note T0 = crawl_unique_links [where fuel = 0 and env = example_env and u = "''u1''"
      and w = example_script]
  from T0 [THEN conjunct2, THEN conjunct2, THEN conjunct2, rule_format, OF hyp]
  obtain acc where c1: "collect_listings (Suc (Suc 0)) example_env ''u1'' example_script =
       Some (Inr acc, [Request ''u1''] @ [Delay 500] @ [Request ''u2''],
             [Inr ''10 JOD'', Inl (HttpStatus 404), Inr ''30 JOD''])"
    and c2: "map link acc = rev (remdups (rev (map link (listings ?p1 @ listings ?p2))))"
    by (elim exE conjE)
  from c2 have "map link acc = [''a'', ''b'', ''c'']" by (simp add: example_listing_def)
  with c1 have f: "\<exists>acc. collect_listings (Suc (Suc 0)) example_env ''u1'' example_script =
       Some (Inr acc, [Request ''u1''] @ [Delay 500] @ [Request ''u2''],
             [Inr ''10 JOD'', Inl (HttpStatus 404), Inr ''30 JOD'']) \<and>
     map link acc = [''a'', ''b'', ''c'']" by (intro exI conjI)
  from a c e f h1 h2 h3 h4 h5 example_collect show ?thesis by (intro conjI)
qed

end
